theory Spec2Isabelle
  imports Complex_Main
begin

text \<open>
  A shallow embedding of \<^verbatim>\<open>import_export_tool.py\<close>, the ThingsBoard telemetry
  exporter and importer, and the properties of its pagination, retry and type
  conversion code.

  Conventions of the embedding:
  \<^item> A Python exception is a value of \<open>exn\<close>; a call that may raise returns
    \<open>exn + 'a\<close>, with \<open>Inl\<close> for the exception.
  \<^item> Text is a \<open>string\<close>, read as a Python \<open>str\<close> whose code points are all below
    256. Python integers are \<open>int\<close>.
  \<^item> The REST client and the remote service behind it are parameters: a record of
    functions over the state \<open>'r\<close> of the remote side, so that a call may answer
    differently each time it is made.
  \<^item> Everything the program does to the outside is an \<open>event\<close> appended to the
    \<open>trace\<close> of the \<open>world\<close>: opening the output file, writing a row, calling the
    client, sleeping between two attempts, logging a line. The rows of each file
    are kept in \<open>files\<close> as well.
  \<^item> The \<open>while\<close> loop over the time windows may run forever (a window width of
    zero or less), so it is a partial function whose value \<open>None\<close> stands for a
    run that never returns.
\<close>

section \<open>Python values and exceptions\<close>

datatype exn =
    ApiException
  | ValueError
  | JSONDecodeError
  | ZeroDivisionError
  | RetryError exn
  | OtherError string

datatype pyfloat = Nan | Inf bool | Dec bool nat int

datatype pyval =
    PNone
  | PBool bool
  | PInt int
  | PFloat pyfloat
  | PStr string
  | PList "pyval list"
  | PDict "(string \<times> pyval) list"

section \<open>Text operations\<close>

definition py_lower_char :: "char \<Rightarrow> char" where
  "py_lower_char c =
     (let n = (of_char c :: nat)
      in if (65 \<le> n \<and> n \<le> 90) \<or> (192 \<le> n \<and> n \<le> 222 \<and> n \<noteq> 215)
         then char_of (n + 32) else c)"

definition py_lower :: "string \<Rightarrow> string" where
  "py_lower s = map py_lower_char s"

definition py_replace :: "char \<Rightarrow> char \<Rightarrow> string \<Rightarrow> string" where
  "py_replace old new s = map (\<lambda>c. if c = old then new else c) s"

definition quotes_normalized :: "string \<Rightarrow> string" where
  "quotes_normalized s = py_replace (CHR 0x27) (CHR 0x22) s"

definition py_isspace :: "char \<Rightarrow> bool" where
  "py_isspace c =
     (let n = (of_char c :: nat)
      in (9 \<le> n \<and> n \<le> 13) \<or> (28 \<le> n \<and> n \<le> 32) \<or> n = 133 \<or> n = 160)"

definition py_strip :: "string \<Rightarrow> string" where
  "py_strip s = rev (dropWhile py_isspace (rev (dropWhile py_isspace s)))"

fun py_split :: "char \<Rightarrow> string \<Rightarrow> string list" where
  "py_split sep [] = [[]]"
| "py_split sep (c # cs) =
     (if c = sep then [] # py_split sep cs
      else (case py_split sep cs of
              [] \<Rightarrow> [[c]]
            | w # ws \<Rightarrow> (c # w) # ws))"

fun py_join :: "string \<Rightarrow> string list \<Rightarrow> string" where
  "py_join sep [] = []"
| "py_join sep [x] = x"
| "py_join sep (x # y # ys) = x @ sep @ py_join sep (y # ys)"

definition is_digit :: "char \<Rightarrow> bool" where
  "is_digit c = (let n = (of_char c :: nat) in 48 \<le> n \<and> n \<le> 57)"

definition digit_val :: "char \<Rightarrow> nat" where
  "digit_val c = of_char c - 48"

definition digits_val :: "string \<Rightarrow> nat" where
  "digits_val ds = foldl (\<lambda>acc c. 10 * acc + digit_val c) 0 ds"

definition digit_char :: "nat \<Rightarrow> char" where
  "digit_char d = ''0123456789abcdef'' ! d"

fun show_nat :: "nat \<Rightarrow> string" where
  "show_nat n = (if n < 10 then [digit_char n] else show_nat (n div 10) @ [digit_char (n mod 10)])"

declare show_nat.simps [simp del]

definition show_int :: "int \<Rightarrow> string" where
  "show_int i = (if i < 0 then CHR ''-'' # show_nat (nat (- i)) else show_nat (nat i))"

section \<open>The conversions int() and float()\<close>

fun underscores_ok :: "char \<Rightarrow> string \<Rightarrow> bool" where
  "underscores_ok prev [] = (prev \<noteq> CHR ''_'')"
| "underscores_ok prev (c # cs) =
     (if c = CHR ''_'' then is_digit prev \<and> underscores_ok c cs
      else (if prev = CHR ''_'' then is_digit c else True) \<and> underscores_ok c cs)"

definition without_underscores :: "string \<Rightarrow> string" where
  "without_underscores s = filter (\<lambda>c. c \<noteq> CHR ''_'') s"

definition take_sign :: "string \<Rightarrow> bool \<times> string" where
  "take_sign s =
     (case s of
        c # cs \<Rightarrow> if c = CHR ''-'' then (True, cs) else if c = CHR ''+'' then (False, cs) else (False, s)
      | [] \<Rightarrow> (False, s))"

definition py_int :: "string \<Rightarrow> exn + int" where
  "py_int text =
     (let (neg, body) = take_sign (py_strip text);
          ds = without_underscores body
      in if ds \<noteq> [] \<and> list_all (\<lambda>c. is_digit c \<or> c = CHR ''_'') body \<and>
            underscores_ok (CHR 0x00) body
         then Inr (if neg then - int (digits_val ds) else int (digits_val ds))
         else Inl ValueError)"

definition take_exponent :: "string \<Rightarrow> int option" where
  "take_exponent s =
     (case s of
        [] \<Rightarrow> Some 0
      | c # cs \<Rightarrow>
          if c = CHR ''e'' \<or> c = CHR ''E'' then
            (let (neg, ds) = take_sign cs
             in if ds \<noteq> [] \<and> list_all is_digit ds
                then Some (if neg then - int (digits_val ds) else int (digits_val ds))
                else None)
          else None)"

definition float_literal :: "string \<Rightarrow> exn + pyfloat" where
  "float_literal s =
     (let (neg, body) = take_sign s;
          word = py_lower body
      in if word = ''inf'' \<or> word = ''infinity'' then Inr (Inf neg)
         else if word = ''nan'' then Inr Nan
         else
           (let ip = takeWhile is_digit body;
                r1 = dropWhile is_digit body;
                fp = (case r1 of c # cs \<Rightarrow> if c = CHR ''.'' then takeWhile is_digit cs else [] | [] \<Rightarrow> []);
                r2 = (case r1 of c # cs \<Rightarrow> if c = CHR ''.'' then dropWhile is_digit cs else r1 | [] \<Rightarrow> [])
            in if ip @ fp = [] then Inl ValueError
               else (case take_exponent r2 of
                       None \<Rightarrow> Inl ValueError
                     | Some ex \<Rightarrow> Inr (Dec neg (digits_val (ip @ fp)) (ex - int (length fp))))))"

definition py_float :: "string \<Rightarrow> exn + pyfloat" where
  "py_float text =
     (let s = py_strip text
      in if List.member s (CHR ''_'') then
           (if underscores_ok (CHR 0x00) s then float_literal (without_underscores s)
            else Inl ValueError)
         else float_literal s)"


section \<open>json.loads\<close>

datatype token =
    LBrace | RBrace | LBracket | RBracket | Colon | Comma
  | TString string
  | TAtom pyval

definition is_json_ws :: "char \<Rightarrow> bool" where
  "is_json_ws c = (c = CHR 0x20 \<or> c = CHR 0x09 \<or> c = CHR 0x0A \<or> c = CHR 0x0D)"

definition hex_val :: "char \<Rightarrow> nat option" where
  "hex_val c =
     (let n = (of_char c :: nat)
      in if 48 \<le> n \<and> n \<le> 57 then Some (n - 48)
         else if 65 \<le> n \<and> n \<le> 70 then Some (n - 55)
         else if 97 \<le> n \<and> n \<le> 102 then Some (n - 87)
         else None)"

definition json_escape :: "char \<Rightarrow> char option" where
  "json_escape c =
     (if c = CHR 0x22 then Some (CHR 0x22)
      else if c = CHR 0x5C then Some (CHR 0x5C)
      else if c = CHR ''/'' then Some (CHR ''/'')
      else if c = CHR ''b'' then Some (CHR 0x08)
      else if c = CHR ''f'' then Some (CHR 0x0C)
      else if c = CHR ''n'' then Some (CHR 0x0A)
      else if c = CHR ''r'' then Some (CHR 0x0D)
      else if c = CHR ''t'' then Some (CHR 0x09)
      else None)"

fun scanstring :: "string \<Rightarrow> nat \<Rightarrow> string \<Rightarrow> exn + (string \<times> nat)" where
  "scanstring acc n [] = Inl JSONDecodeError"
| "scanstring acc n [c] =
     (if c = CHR 0x22 then Inr (rev acc, Suc n) else Inl JSONDecodeError)"
| "scanstring acc n (c # e # cs) =
     (if c = CHR 0x22 then Inr (rev acc, Suc n)
      else if c = CHR 0x5C then
        (if e = CHR ''u'' then
           (case cs of
              h1 # h2 # h3 # h4 # rest \<Rightarrow>
                (case (hex_val h1, hex_val h2, hex_val h3, hex_val h4) of
                   (Some a, Some b, Some c, Some d) \<Rightarrow>
                     (if a = 0 \<and> b = 0
                      then scanstring (char_of (16 * c + d) # acc) (n + 6) rest
                      else Inl (OtherError ''code point beyond U+00FF''))
                 | _ \<Rightarrow> Inl JSONDecodeError)
            | _ \<Rightarrow> Inl JSONDecodeError)
         else
           (case json_escape e of
              Some d \<Rightarrow> scanstring (d # acc) (n + 2) cs
            | None \<Rightarrow> Inl JSONDecodeError))
      else if (of_char c :: nat) < 32 then Inl JSONDecodeError
      else scanstring (c # acc) (Suc n) (e # cs))"

definition starts_with :: "string \<Rightarrow> string \<Rightarrow> bool" where
  "starts_with p s = (take (length p) s = p)"

definition scan_number :: "string \<Rightarrow> (pyval \<times> nat) option" where
  "scan_number s =
     (let (neg, body) = (case s of c # cs \<Rightarrow> if c = CHR ''-'' then (True, cs) else (False, s)
                                 | [] \<Rightarrow> (False, s));
          sl = (if neg then 1 else 0);
          ip = (case body of c # cs \<Rightarrow> if c = CHR ''0'' then [c] else takeWhile is_digit body
                           | [] \<Rightarrow> []);
          r1 = drop (length ip) body;
          fp = (case r1 of c # cs \<Rightarrow> if c = CHR ''.'' then takeWhile is_digit cs else []
                         | [] \<Rightarrow> []);
          fl = (if fp = [] then 0 else Suc (length fp));
          r2 = drop fl r1;
          (ep, el) =
            (case r2 of
               c # cs \<Rightarrow>
                 if c = CHR ''e'' \<or> c = CHR ''E'' then
                   (let sg = (case cs of d # ds \<Rightarrow> if d = CHR ''-'' \<or> d = CHR ''+'' then [d] else []
                                       | [] \<Rightarrow> []);
                        ds = takeWhile is_digit (drop (length sg) cs)
                    in if ds = [] then (None, 0)
                       else (Some (if sg = ''-'' then - int (digits_val ds) else int (digits_val ds)),
                             Suc (length sg + length ds)))
                 else (None, 0)
             | [] \<Rightarrow> (None, 0))
      in if ip = [] then None
         else if fp = [] \<and> ep = None
           then Some (PInt (if neg then - int (digits_val ip) else int (digits_val ip)),
                      sl + length ip)
         else Some (PFloat (Dec neg (digits_val (ip @ fp))
                      ((case ep of Some x \<Rightarrow> x | None \<Rightarrow> 0) - int (length fp))),
                    sl + length ip + fl + el))"

definition scan_atom :: "string \<Rightarrow> (pyval \<times> nat) option" where
  "scan_atom s =
     (if starts_with ''null'' s then Some (PNone, 4)
      else if starts_with ''true'' s then Some (PBool True, 4)
      else if starts_with ''false'' s then Some (PBool False, 5)
      else (case scan_number s of
              Some r \<Rightarrow> Some r
            | None \<Rightarrow>
                if starts_with ''NaN'' s then Some (PFloat Nan, 3)
                else if starts_with ''Infinity'' s then Some (PFloat (Inf False), 8)
                else if starts_with ''-Infinity'' s then Some (PFloat (Inf True), 9)
                else None))"

definition and_then :: "token \<Rightarrow> exn + token list \<Rightarrow> exn + token list" where
  "and_then t r = (case r of Inl e \<Rightarrow> Inl e | Inr ts \<Rightarrow> Inr (t # ts))"

fun tokens :: "nat \<Rightarrow> string \<Rightarrow> exn + token list" where
  "tokens k [] = Inr []"
| "tokens (Suc k) (c # cs) = tokens k cs"
| "tokens 0 (c # cs) =
     (if is_json_ws c then tokens 0 cs
      else if c = CHR ''{'' then and_then LBrace (tokens 0 cs)
      else if c = CHR ''}'' then and_then RBrace (tokens 0 cs)
      else if c = CHR ''['' then and_then LBracket (tokens 0 cs)
      else if c = CHR '']'' then and_then RBracket (tokens 0 cs)
      else if c = CHR '':'' then and_then Colon (tokens 0 cs)
      else if c = CHR '','' then and_then Comma (tokens 0 cs)
      else if c = CHR 0x22 then
        (case scanstring [] 0 cs of
           Inl e \<Rightarrow> Inl e
         | Inr (s, n) \<Rightarrow> and_then (TString s) (tokens n cs))
      else
        (case scan_atom (c # cs) of
           None \<Rightarrow> Inl JSONDecodeError
         | Some (v, n) \<Rightarrow> and_then (TAtom v) (tokens (n - 1) cs)))"

datatype frame = InArray "pyval list" | InObject "(string \<times> pyval) list" string

datatype expecting =
    Value bool
  | Key bool "(string \<times> pyval) list"
  | KeyColon "(string \<times> pyval) list" string
  | Completed pyval

definition dict_set :: "(string \<times> pyval) list \<Rightarrow> string \<Rightarrow> pyval \<Rightarrow> (string \<times> pyval) list" where
  "dict_set d k v =
     (if List.member (map fst d) k then map (\<lambda>(k', v'). if k' = k then (k', v) else (k', v')) d
      else d @ [(k, v)])"

fun parse_tokens :: "expecting \<Rightarrow> frame list \<Rightarrow> token list \<Rightarrow> exn + pyval" where
  "parse_tokens (Completed v) [] [] = Inr v"
| "parse_tokens _ _ [] = Inl JSONDecodeError"
| "parse_tokens (Value closable) st (t # ts) =
     (case t of
        TAtom v \<Rightarrow> parse_tokens (Completed v) st ts
      | TString s \<Rightarrow> parse_tokens (Completed (PStr s)) st ts
      | LBracket \<Rightarrow> parse_tokens (Value True) (InArray [] # st) ts
      | LBrace \<Rightarrow> parse_tokens (Key True []) st ts
      | RBracket \<Rightarrow>
          (case (closable, st) of
             (True, InArray [] # st') \<Rightarrow> parse_tokens (Completed (PList [])) st' ts
           | _ \<Rightarrow> Inl JSONDecodeError)
      | _ \<Rightarrow> Inl JSONDecodeError)"
| "parse_tokens (Key closable d) st (t # ts) =
     (case t of
        TString k \<Rightarrow> parse_tokens (KeyColon d k) st ts
      | RBrace \<Rightarrow> if closable then parse_tokens (Completed (PDict d)) st ts else Inl JSONDecodeError
      | _ \<Rightarrow> Inl JSONDecodeError)"
| "parse_tokens (KeyColon d k) st (t # ts) =
     (case t of
        Colon \<Rightarrow> parse_tokens (Value False) (InObject d k # st) ts
      | _ \<Rightarrow> Inl JSONDecodeError)"
| "parse_tokens (Completed v) [] (t # ts) = Inl JSONDecodeError"
| "parse_tokens (Completed v) (InArray items # st) (t # ts) =
     (case t of
        Comma \<Rightarrow> parse_tokens (Value False) (InArray (items @ [v]) # st) ts
      | RBracket \<Rightarrow> parse_tokens (Completed (PList (items @ [v]))) st ts
      | _ \<Rightarrow> Inl JSONDecodeError)"
| "parse_tokens (Completed v) (InObject d k # st) (t # ts) =
     (case t of
        Comma \<Rightarrow> parse_tokens (Key False (dict_set d k v)) st ts
      | RBrace \<Rightarrow> parse_tokens (Completed (PDict (dict_set d k v))) st ts
      | _ \<Rightarrow> Inl JSONDecodeError)"

definition json_loads :: "string \<Rightarrow> exn + pyval" where
  "json_loads text =
     (case tokens 0 text of
        Inl e \<Rightarrow> Inl e
      | Inr ts \<Rightarrow> parse_tokens (Value False) [] ts)"


section \<open>Text form of a value written by csv.writer\<close>

definition float_repr :: "pyfloat \<Rightarrow> string option" where
  "float_repr f =
     (case f of
        Nan \<Rightarrow> Some ''nan''
      | Inf neg \<Rightarrow> Some (if neg then ''-inf'' else ''inf'')
      | Dec neg m e \<Rightarrow> None)"

definition needs_hex_escape :: "char \<Rightarrow> bool" where
  "needs_hex_escape c =
     (let n = (of_char c :: nat) in n < 32 \<or> n = 127 \<or> (128 \<le> n \<and> n \<le> 160) \<or> n = 173)"

definition repr_char :: "char \<Rightarrow> char \<Rightarrow> string" where
  "repr_char quote c =
     (if c = quote \<or> c = CHR 0x5C then [CHR 0x5C, c]
      else if c = CHR 0x09 then [CHR 0x5C, CHR ''t'']
      else if c = CHR 0x0A then [CHR 0x5C, CHR ''n'']
      else if c = CHR 0x0D then [CHR 0x5C, CHR ''r'']
      else if needs_hex_escape c
        then [CHR 0x5C, CHR ''x'', digit_char ((of_char c :: nat) div 16),
              digit_char ((of_char c :: nat) mod 16)]
      else [c])"

definition str_repr :: "string \<Rightarrow> string" where
  "str_repr s =
     (let quote = (if List.member s (CHR 0x27) \<and> \<not> List.member s (CHR 0x22)
                   then CHR 0x22 else CHR 0x27)
      in quote # concat (map (repr_char quote) s) @ [quote])"

fun py_repr :: "pyval \<Rightarrow> string option" where
  "py_repr PNone = Some ''None''"
| "py_repr (PBool b) = Some (if b then ''True'' else ''False'')"
| "py_repr (PInt i) = Some (show_int i)"
| "py_repr (PFloat f) = float_repr f"
| "py_repr (PStr s) = Some (str_repr s)"
| "py_repr (PList xs) =
     map_option (\<lambda>rs. ''['' @ py_join '', '' rs @ '']'') (those (map py_repr xs))"
| "py_repr (PDict d) =
     map_option (\<lambda>rs. ''{'' @ py_join '', '' rs @ ''}'')
       (those (map (\<lambda>kv. map_option (\<lambda>r. str_repr (fst kv) @ '': '' @ r) (py_repr (snd kv))) d))"

definition csv_cell :: "pyval \<Rightarrow> string option" where
  "csv_cell v =
     (case v of
        PNone \<Rightarrow> Some []
      | PStr s \<Rightarrow> Some s
      | _ \<Rightarrow> py_repr v)"

section \<open>Type inference on export and conversion on import\<close>

definition is_ValueError :: "exn \<Rightarrow> bool" where
  "is_ValueError e = (e = ValueError \<or> e = JSONDecodeError)"

definition is_JSONDecodeError :: "exn \<Rightarrow> bool" where
  "is_JSONDecodeError e = (e = JSONDecodeError)"

definition is_ApiException :: "exn \<Rightarrow> bool" where
  "is_ApiException e = (e = ApiException)"

definition try_json :: "string \<Rightarrow> exn + (pyval \<times> string)" where
  "try_json value =
     (case json_loads (quotes_normalized value) of
        Inr json_value \<Rightarrow> Inr (json_value, ''json'')
      | Inl e \<Rightarrow> if is_JSONDecodeError e then Inr (PStr value, ''string'') else Inl e)"

definition try_float :: "string \<Rightarrow> exn + (pyval \<times> string)" where
  "try_float value =
     (case py_float value of
        Inr float_value \<Rightarrow> Inr (PFloat float_value, ''double'')
      | Inl e \<Rightarrow> if is_ValueError e then try_json value else Inl e)"

definition try_int :: "string \<Rightarrow> exn + (pyval \<times> string)" where
  "try_int value =
     (case py_int value of
        Inr int_value \<Rightarrow> Inr (PInt int_value, ''int'')
      | Inl e \<Rightarrow> if is_ValueError e then try_float value else Inl e)"

definition infer_body :: "string \<Rightarrow> exn + (pyval \<times> string)" where
  "infer_body value =
     (if py_lower value = ''true'' then Inr (PBool True, ''boolean'')
      else if py_lower value = ''false'' then Inr (PBool False, ''boolean'')
      else try_int value)"

datatype level = ERROR | WARNING | INFO

definition infer_type_and_convert :: "string \<Rightarrow> (pyval \<times> string) \<times> (level \<times> string) list" where
  "infer_type_and_convert value =
     (case infer_body value of
        Inr r \<Rightarrow> (r, [])
      | Inl e \<Rightarrow> ((PStr value, ''string''), [(WARNING, ''Could not infer type for value: '' @ value)]))"

definition convert_value :: "string \<Rightarrow> string \<Rightarrow> exn + pyval" where
  "convert_value value value_type =
     (if value_type = ''boolean'' then Inr (PBool (py_lower value = ''true''))
      else if value_type = ''int'' then map_sum id PInt (py_int value)
      else if value_type = ''double'' then map_sum id PFloat (py_float value)
      else if value_type = ''json'' then json_loads (quotes_normalized value)
      else Inr (PStr value))"


section \<open>The client, the remote service and the observable effects\<close>

datatype entity_id = EntityId (entity_type: string) (entity_ident: "string option")

type_synonym data_point = "int \<times> string"

type_synonym telemetry_body = "int \<times> string \<times> pyval"

datatype call =
    GetTenantDevice string
  | GetTimeseriesKeys entity_id
  | GetTimeseries entity_id string int int int
  | SaveEntityTelemetry entity_id string telemetry_body

datatype event =
    Opened string
  | Wrote string "pyval list"
  | Called call
  | Slept nat
  | Logged level string

record 'r client =
  new_entity_id :: "string \<Rightarrow> string option \<Rightarrow> exn + entity_id"
  get_tenant_device :: "string \<Rightarrow> 'r \<Rightarrow> (exn + string) \<times> 'r"
  get_timeseries_keys_v1 :: "entity_id \<Rightarrow> 'r \<Rightarrow> (exn + string list) \<times> 'r"
  get_timeseries ::
    "entity_id \<Rightarrow> string \<Rightarrow> int \<Rightarrow> int \<Rightarrow> int \<Rightarrow> 'r \<Rightarrow>
       (exn + (string \<times> data_point list) list) \<times> 'r"
  save_entity_telemetry :: "entity_id \<Rightarrow> string \<Rightarrow> telemetry_body \<Rightarrow> 'r \<Rightarrow> (exn + unit) \<times> 'r"

type_synonym file_system = "(string \<times> pyval list list) list"

fun file_put :: "string \<Rightarrow> pyval list list \<Rightarrow> file_system \<Rightarrow> file_system" where
  "file_put name rows [] = [(name, rows)]"
| "file_put name rows ((n, old) # fs) =
     (if n = name then (n, rows) # fs else (n, old) # file_put name rows fs)"

record 'r world =
  remote :: 'r
  files :: file_system
  trace :: "event list"

definition emit :: "level \<Rightarrow> string \<Rightarrow> 'r world \<Rightarrow> 'r world" where
  "emit lvl msg w = w\<lparr>trace := trace w @ [Logged lvl msg]\<rparr>"

definition sleep :: "nat \<Rightarrow> 'r world \<Rightarrow> 'r world" where
  "sleep seconds w = w\<lparr>trace := trace w @ [Slept seconds]\<rparr>"

definition invoke :: "call \<Rightarrow> ('r \<Rightarrow> (exn + 'a) \<times> 'r) \<Rightarrow> 'r world \<Rightarrow> (exn + 'a) \<times> 'r world" where
  "invoke c f w =
     (case f (remote w) of
        (res, r') \<Rightarrow> (res, w\<lparr>remote := r', trace := trace w @ [Called c]\<rparr>))"

definition open_write :: "string \<Rightarrow> 'r world \<Rightarrow> 'r world" where
  "open_write file_name w =
     w\<lparr>files := file_put file_name [] (files w), trace := trace w @ [Opened file_name]\<rparr>"

definition writerow :: "string \<Rightarrow> pyval list \<Rightarrow> 'r world \<Rightarrow> 'r world" where
  "writerow file_name row w =
     w\<lparr>files :=
         file_put file_name
           (case map_of (files w) file_name of None \<Rightarrow> [row] | Some rows \<Rightarrow> rows @ [row])
           (files w),
       trace := trace w @ [Wrote file_name row]\<rparr>"

section \<open>The retry decorator\<close>

primrec attempt_loop ::
  "nat \<Rightarrow> nat \<Rightarrow> ('r world \<Rightarrow> (exn + 'a) \<times> 'r world) \<Rightarrow> 'r world \<Rightarrow> (exn + 'a) \<times> 'r world" where
  "attempt_loop 0 wait f w =
     (case f w of
        (Inr v, w') \<Rightarrow> (Inr v, w')
      | (Inl e, w') \<Rightarrow> (Inl (RetryError e), w'))"
| "attempt_loop (Suc remaining) wait f w =
     (case f w of
        (Inr v, w') \<Rightarrow> (Inr v, w')
      | (Inl e, w') \<Rightarrow> attempt_loop remaining wait f (sleep wait w'))"

definition retry ::
  "nat \<Rightarrow> nat \<Rightarrow> ('r world \<Rightarrow> (exn + 'a) \<times> 'r world) \<Rightarrow> 'r world \<Rightarrow> (exn + 'a) \<times> 'r world" where
  "retry stop_after_attempt wait_fixed f = attempt_loop (stop_after_attempt - 1) wait_fixed f"

section \<open>Export\<close>

definition get_all_keys ::
  "'r client \<Rightarrow> string \<Rightarrow> string option \<Rightarrow> 'r world \<Rightarrow> (exn + string) \<times> 'r world" where
  "get_all_keys client etype eid w =
     (case new_entity_id client etype eid of
        Inl e \<Rightarrow> (Inl e, w)
      | Inr ent \<Rightarrow>
          (case invoke (GetTimeseriesKeys ent) (get_timeseries_keys_v1 client ent) w of
             (Inl e, w') \<Rightarrow> (Inl e, w')
           | (Inr keys_response, w') \<Rightarrow> (Inr (py_join '','' keys_response), w')))"

definition get_device_id ::
  "'r client \<Rightarrow> string \<Rightarrow> 'r world \<Rightarrow> (exn + string option) \<times> 'r world" where
  "get_device_id client device_name w =
     (case invoke (GetTenantDevice device_name) (get_tenant_device client device_name) w of
        (Inr device, w') \<Rightarrow> (Inr (Some device), w')
      | (Inl e, w') \<Rightarrow>
          if is_ApiException e
          then (Inr None, emit ERROR (''Error fetching device ID for '' @ device_name) w')
          else (Inl e, w'))"

definition fetch_timeseries ::
  "'r client \<Rightarrow> entity_id \<Rightarrow> string \<Rightarrow> int \<Rightarrow> int \<Rightarrow> int \<Rightarrow> 'r world \<Rightarrow>
     (exn + (string \<times> data_point list) list) \<times> 'r world" where
  "fetch_timeseries client ent keys start_ts end_ts chunk_limit =
     retry 3 2 (invoke (GetTimeseries ent keys start_ts end_ts chunk_limit)
                  (get_timeseries client ent keys start_ts end_ts chunk_limit))"

definition header :: "pyval list" where
  "header = [PStr ''deviceId'', PStr ''key'', PStr ''ts'', PStr ''value'', PStr ''type'']"

definition opt_str :: "string option \<Rightarrow> pyval" where
  "opt_str x = (case x of None \<Rightarrow> PNone | Some s \<Rightarrow> PStr s)"

definition export_data_point ::
  "string \<Rightarrow> string option \<Rightarrow> string \<Rightarrow> data_point \<Rightarrow> 'r world \<Rightarrow> 'r world" where
  "export_data_point file_name device_id key data_point w =
     (case data_point of
        (ts, raw_value) \<Rightarrow>
          (case infer_type_and_convert raw_value of
             ((value, value_type), warnings) \<Rightarrow>
               writerow file_name [opt_str device_id, PStr key, PInt ts, value, PStr value_type]
                 (fold (\<lambda>(lvl, msg). emit lvl msg) warnings w)))"

definition export_response ::
  "string \<Rightarrow> string option \<Rightarrow> (string \<times> data_point list) list \<Rightarrow> 'r world \<Rightarrow> nat \<times> 'r world" where
  "export_response file_name device_id timeseries_response w =
     fold (\<lambda>(key, data_points) (total_fetched, w').
             (total_fetched + length data_points,
              fold (export_data_point file_name device_id key) data_points w'))
       timeseries_response (0, w)"

definition export_window ::
  "'r client \<Rightarrow> string \<Rightarrow> string \<Rightarrow> string option \<Rightarrow> string \<Rightarrow> int \<Rightarrow> int \<Rightarrow> int \<Rightarrow>
     'r world \<Rightarrow> 'r world" where
  "export_window client file_name device_name device_id keys chunk_limit
       current_start_ts current_end_ts w =
     (case new_entity_id client ''DEVICE'' device_id of
        Inl e \<Rightarrow> emit ERROR (''Failed to fetch timeseries data for device '' @ device_name) w
      | Inr ent \<Rightarrow>
          (case fetch_timeseries client ent keys current_start_ts current_end_ts chunk_limit w of
             (Inl e, w1) \<Rightarrow>
               emit ERROR (''Failed to fetch timeseries data for device '' @ device_name) w1
           | (Inr timeseries_response, w1) \<Rightarrow>
               (case export_response file_name device_id timeseries_response w1 of
                  (total_fetched, w2) \<Rightarrow>
                    if total_fetched > 0
                    then emit INFO (''Fetched records for device with name '' @ device_name) w2
                    else w2)))"


definition time_limit_ms :: "int \<Rightarrow> int" where
  "time_limit_ms time_limit = time_limit * 60 * 1000"

partial_function (option) window_loop ::
  "(int \<Rightarrow> int \<Rightarrow> 's \<Rightarrow> 's) \<Rightarrow> int \<Rightarrow> int \<Rightarrow> int \<Rightarrow> 's \<Rightarrow> 's option" where
  "window_loop body limit_ms end_ts current_start_ts s =
     (if current_start_ts < end_ts then
        (let current_end_ts = min (current_start_ts + limit_ms) end_ts
         in window_loop body limit_ms end_ts current_end_ts
              (body current_start_ts current_end_ts s))
      else Some s)"

text \<open>The same equation with \<open>current_end_ts\<close> written out, for evaluation.\<close>

lemma window_loop_code [code]:
  "window_loop body limit_ms end_ts current_start_ts s =
     (if current_start_ts < end_ts then
        window_loop body limit_ms end_ts (min (current_start_ts + limit_ms) end_ts)
          (body current_start_ts (min (current_start_ts + limit_ms) end_ts) s)
      else Some s)"
  by (subst window_loop.simps) (simp add: Let_def)

definition select_keys ::
  "'r client \<Rightarrow> string option \<Rightarrow> string option \<Rightarrow> 'r world \<Rightarrow> (exn + string) \<times> 'r world" where
  "select_keys client device_id keys w =
     (case keys of
        None \<Rightarrow> get_all_keys client ''DEVICE'' device_id w
      | Some ks \<Rightarrow> if ks = [] then get_all_keys client ''DEVICE'' device_id w else (Inr ks, w))"

definition export_device ::
  "'r client \<Rightarrow> string \<Rightarrow> int \<Rightarrow> int \<Rightarrow> int \<Rightarrow> int \<Rightarrow> string \<Rightarrow> string option \<Rightarrow> 'r world \<Rightarrow>
     ((exn + string) \<times> 'r world) option" where
  "export_device client file_name start_ts end_ts chunk_limit limit_ms device_name keys w =
     (case get_device_id client device_name w of
        (Inl e, w1) \<Rightarrow> Some (Inl e, w1)
      | (Inr device_id, w1) \<Rightarrow>
          (case select_keys client device_id keys
                  (emit INFO (''Processing telemetry export for device: '' @ device_name) w1) of
             (Inl e, w2) \<Rightarrow> Some (Inl e, w2)
           | (Inr ks, w2) \<Rightarrow>
               (case window_loop
                       (export_window client file_name device_name device_id ks chunk_limit)
                       limit_ms end_ts start_ts w2 of
                  None \<Rightarrow> None
                | Some w3 \<Rightarrow>
                    Some (Inr ks,
                      emit INFO (''Finished processing timeseries for device with name '' @ device_name)
                        w3))))"

fun export_devices ::
  "'r client \<Rightarrow> string \<Rightarrow> int \<Rightarrow> int \<Rightarrow> int \<Rightarrow> int \<Rightarrow> string list \<Rightarrow> string option \<Rightarrow> 'r world \<Rightarrow>
     ((exn + unit) \<times> 'r world) option" where
  "export_devices client file_name start_ts end_ts chunk_limit limit_ms [] keys w = Some (Inr (), w)"
| "export_devices client file_name start_ts end_ts chunk_limit limit_ms (device_name # rest) keys w =
     (case export_device client file_name start_ts end_ts chunk_limit limit_ms device_name keys w of
        None \<Rightarrow> None
      | Some (Inl e, w') \<Rightarrow> Some (Inl e, w')
      | Some (Inr ks, w') \<Rightarrow>
          export_devices client file_name start_ts end_ts chunk_limit limit_ms rest (Some ks) w')"

definition export_timeseries ::
  "'r client \<Rightarrow> string \<Rightarrow> int \<Rightarrow> int \<Rightarrow> string \<Rightarrow> string option \<Rightarrow> int \<Rightarrow> int \<Rightarrow> 'r world \<Rightarrow>
     ((exn + unit) \<times> 'r world) option" where
  "export_timeseries client file_name start_ts end_ts device_names keys chunk_limit time_limit w =
     export_devices client file_name start_ts end_ts chunk_limit (time_limit_ms time_limit)
       (py_split (CHR '','') device_names) keys
       (writerow file_name header (open_write file_name w))"

section \<open>Import\<close>

datatype csv_row =
  CsvRow (row_deviceId: string) (row_key: string) (row_ts: string) (row_value: string)
    (row_type: string)

type_synonym telemetry_data = "(string \<times> telemetry_body list) list"

definition with_device :: "string \<Rightarrow> telemetry_data \<Rightarrow> telemetry_data" where
  "with_device device_id td =
     (if List.member (map fst td) device_id then td else td @ [(device_id, [])])"

definition append_point :: "string \<Rightarrow> telemetry_body \<Rightarrow> telemetry_data \<Rightarrow> telemetry_data" where
  "append_point device_id p td =
     map (\<lambda>(d, ps). if d = device_id then (d, ps @ [p]) else (d, ps)) td"

fun read_rows ::
  "csv_row list \<Rightarrow> telemetry_data \<Rightarrow> 'r world \<Rightarrow> (exn + telemetry_data) \<times> 'r world" where
  "read_rows [] td w = (Inr td, w)"
| "read_rows (row # rows) td w =
     (case py_int (row_ts row) of
        Inl e \<Rightarrow> (Inl e, w)
      | Inr ts \<Rightarrow>
          (case convert_value (row_value row) (row_type row) of
             Inr value_converted \<Rightarrow>
               read_rows rows
                 (append_point (row_deviceId row) (ts, row_key row, value_converted)
                    (with_device (row_deviceId row) td)) w
           | Inl e \<Rightarrow>
               if row_type row = ''json'' \<and> is_JSONDecodeError e
               then read_rows rows (with_device (row_deviceId row) td)
                      (emit ERROR (''Failed to parse JSON value: '' @ row_value row) w)
               else (Inl e, w)))"

definition save_telemetry ::
  "'r client \<Rightarrow> entity_id \<Rightarrow> telemetry_body \<Rightarrow> 'r world \<Rightarrow> (exn + unit) \<times> 'r world" where
  "save_telemetry client ent body =
     retry 3 2 (invoke (SaveEntityTelemetry ent ''ANY'' body)
                  (save_entity_telemetry client ent ''ANY'' body))"

fun save_data_points ::
  "'r client \<Rightarrow> string \<Rightarrow> entity_id \<Rightarrow> int \<Rightarrow> telemetry_body list \<Rightarrow> int \<Rightarrow> 'r world \<Rightarrow>
     (exn + int) \<times> 'r world" where
  "save_data_points client device_id ent log_interval [] counter w = (Inr counter, w)"
| "save_data_points client device_id ent log_interval (data_point # rest) counter w =
     (case save_telemetry client ent data_point w of
        (Inl e, w1) \<Rightarrow>
          save_data_points client device_id ent log_interval rest counter
            (emit ERROR (''Failed to save telemetry for device '' @ device_id) w1)
      | (Inr u, w1) \<Rightarrow>
          if log_interval = 0 then (Inl ZeroDivisionError, w1)
          else save_data_points client device_id ent log_interval rest (counter + 1)
                 (if (counter + 1) mod log_interval = 0
                  then emit INFO (''Saved telemetry entries for device '' @ device_id) w1
                  else w1))"

fun save_devices ::
  "'r client \<Rightarrow> int \<Rightarrow> telemetry_data \<Rightarrow> 'r world \<Rightarrow> (exn + unit) \<times> 'r world" where
  "save_devices client log_interval [] w = (Inr (), w)"
| "save_devices client log_interval ((device_id, data_points) # rest) w =
     (case new_entity_id client ''DEVICE'' (Some device_id) of
        Inl e \<Rightarrow> (Inl e, w)
      | Inr ent \<Rightarrow>
          (case save_data_points client device_id ent log_interval data_points 0 w of
             (Inl e, w1) \<Rightarrow> (Inl e, w1)
           | (Inr counter, w1) \<Rightarrow>
               save_devices client log_interval rest
                 (emit INFO (''Finished saving telemetry for device '' @ device_id) w1)))"

definition import_timeseries ::
  "'r client \<Rightarrow> csv_row list \<Rightarrow> int \<Rightarrow> 'r world \<Rightarrow> (exn + unit) \<times> 'r world" where
  "import_timeseries client rows log_interval w =
     (case read_rows rows [] w of
        (Inl e, w1) \<Rightarrow> (Inl e, w1)
      | (Inr telemetry_data, w1) \<Rightarrow> save_devices client log_interval telemetry_data w1)"


section \<open>The windows of a requested range\<close>

text \<open>
  The windows the loop visits, read off by running it with a body that only
  records the bounds it is given.
\<close>

definition visited_windows :: "int \<Rightarrow> int \<Rightarrow> int \<Rightarrow> (int \<times> int) list option" where
  "visited_windows time_limit start_ts end_ts =
     window_loop (\<lambda>a b ws. ws @ [(a, b)]) (time_limit_ms time_limit) end_ts start_ts []"

text \<open>
  The closed form of the same list: \<open>window W e s i\<close> is the \<open>i\<close>-th window of the
  range from \<open>s\<close> to \<open>e\<close> cut at width \<open>W\<close>, and there are \<open>num_windows W e s\<close> of
  them.
\<close>

definition num_windows :: "int \<Rightarrow> int \<Rightarrow> int \<Rightarrow> nat" where
  "num_windows limit_ms end_ts start_ts =
     nat \<lceil>(of_int (end_ts - start_ts) :: real) / of_int limit_ms\<rceil>"

definition window :: "int \<Rightarrow> int \<Rightarrow> int \<Rightarrow> nat \<Rightarrow> int \<times> int" where
  "window limit_ms end_ts start_ts i =
     (start_ts + int i * limit_ms, min (start_ts + (int i + 1) * limit_ms) end_ts)"

definition window_list :: "int \<Rightarrow> int \<Rightarrow> int \<Rightarrow> (int \<times> int) list" where
  "window_list limit_ms end_ts start_ts =
     map (window limit_ms end_ts start_ts) [0 ..< num_windows limit_ms end_ts start_ts]"

definition contiguous :: "(int \<times> int) list \<Rightarrow> bool" where
  "contiguous ws \<longleftrightarrow> (\<forall>i. Suc i < length ws \<longrightarrow> snd (ws ! i) = fst (ws ! Suc i))"

definition non_overlapping :: "(int \<times> int) list \<Rightarrow> bool" where
  "non_overlapping ws \<longleftrightarrow>
     (\<forall>i j. i < j \<and> j < length ws \<longrightarrow>
        {fst (ws ! i) ..< snd (ws ! i)} \<inter> {fst (ws ! j) ..< snd (ws ! j)} = {})"

definition covered :: "(int \<times> int) list \<Rightarrow> int set" where
  "covered ws = (\<Union>(a, b) \<in> set ws. {a ..< b})"


section \<open>The decision order of type inference, as the specification words it\<close>

text \<open>
  First match wins: a case-insensitive \<open>true\<close> or \<open>false\<close> is a boolean; otherwise a
  text that parses as a base-10 integer is an int; otherwise one that parses as a
  floating-point number is a double; otherwise one that parses as structured data
  once its single quotes are turned into double quotes is json; otherwise the text
  itself, unchanged, is a string.
\<close>

definition infer_spec :: "string \<Rightarrow> pyval \<times> string" where
  "infer_spec t =
     (if py_lower t = ''true'' then (PBool True, ''boolean'')
      else if py_lower t = ''false'' then (PBool False, ''boolean'')
      else
        (case py_int t of
           Inr n \<Rightarrow> (PInt n, ''int'')
         | Inl _ \<Rightarrow>
             (case py_float t of
                Inr x \<Rightarrow> (PFloat x, ''double'')
              | Inl _ \<Rightarrow>
                  (case json_loads (quotes_normalized t) of
                     Inr j \<Rightarrow> (j, ''json'')
                   | Inl _ \<Rightarrow> (PStr t, ''string'')))))"

section \<open>Observations on a trace and sample remote services\<close>

fun calls :: "event list \<Rightarrow> call list" where
  "calls [] = []"
| "calls (Called c # evs) = c # calls evs"
| "calls (_ # evs) = calls evs"

fun sleeps :: "event list \<Rightarrow> nat list" where
  "sleeps [] = []"
| "sleeps (Slept n # evs) = n # sleeps evs"
| "sleeps (_ # evs) = sleeps evs"

definition always_fails :: "('r \<Rightarrow> (exn + 'a) \<times> 'r) \<Rightarrow> bool" where
  "always_fails f \<longleftrightarrow> (\<forall>r. isl (fst (f r)))"

definition fresh :: "nat world" where
  "fresh = \<lparr> remote = 0, files = [], trace = [] \<rparr>"

text \<open>
  A service that knows every device but \<open>ghost\<close>, reports the keys \<open>temp\<close> and \<open>on\<close>
  for every entity, refuses to fetch for an entity without an id, and counts the
  calls it has answered. Its entity ids may be null.
\<close>

definition lenient_client :: "nat client" where
  "lenient_client =
     \<lparr> new_entity_id = (\<lambda>t i. Inr (EntityId t i)),
       get_tenant_device =
         (\<lambda>name r. (if name = ''ghost'' then Inl ApiException else Inr (''id-'' @ name), Suc r)),
       get_timeseries_keys_v1 = (\<lambda>ent r. (Inr [''temp'', ''on''], Suc r)),
       get_timeseries =
         (\<lambda>ent keys s e lim r.
            (case entity_ident ent of
               None \<Rightarrow> Inl ApiException
             | Some d \<Rightarrow> Inr [(''temp'', [(s, ''21.5''), (s + 1, ''22'')]), (''on'', [(s, ''true'')])],
             Suc r)),
       save_entity_telemetry = (\<lambda>ent scope body r. (Inr (), Suc r)) \<rparr>"

text \<open>The same service behind a client library whose entity ids must not be null.\<close>

definition strict_client :: "nat client" where
  "strict_client =
     lenient_client
       \<lparr> new_entity_id := (\<lambda>t i. case i of None \<Rightarrow> Inl ValueError | Some d \<Rightarrow> Inr (EntityId t i)) \<rparr>"

text \<open>A service that is down: every fetch and every write raises.\<close>

definition down_client :: "nat client" where
  "down_client =
     lenient_client
       \<lparr> get_timeseries := (\<lambda>ent keys s e lim r. (Inl ApiException, Suc r)),
         save_entity_telemetry := (\<lambda>ent scope body r. (Inl ApiException, Suc r)) \<rparr>"

text \<open>A world in which the output file already exists, with one row of old content.\<close>

definition stale :: "nat world" where
  "stale = \<lparr> remote = 0, files = [(''out.csv'', [[PStr ''old'']])], trace = [] \<rparr>"

text \<open>
  A service whose device \<open>d1\<close> has no telemetry keys at all, while every other
  device has the key \<open>temp\<close>.
\<close>

definition keyless_client :: "nat client" where
  "keyless_client =
     lenient_client
       \<lparr> get_timeseries_keys_v1 :=
           (\<lambda>ent r. (Inr (if entity_ident ent = Some ''id-d1'' then [] else [''temp'']), Suc r)) \<rparr>"

text \<open>
  A service that answers every fetch with two points of \<open>temp\<close>, at the start and
  at the end of the window, and one point of \<open>on\<close> at its start.
\<close>

definition orderly_client :: "nat client" where
  "orderly_client =
     lenient_client
       \<lparr> get_timeseries :=
           (\<lambda>ent keys s e n r.
              (Inr (if s \<le> e
                    then [(''temp'', [(s, ''21.5''), (e, ''22'')]), (''on'', [(s, ''true'')])]
                    else []),
               Suc r)) \<rparr>"


section \<open>What a run adds to the trace and to a file\<close>

fun rows_of :: "string \<Rightarrow> event list \<Rightarrow> pyval list list" where
  "rows_of f [] = []"
| "rows_of f (Wrote g row # evs) = (if g = f then row # rows_of f evs else rows_of f evs)"
| "rows_of f (_ # evs) = rows_of f evs"

definition content_after :: "pyval list list option \<Rightarrow> pyval list list \<Rightarrow> pyval list list option" where
  "content_after old rows =
     (case old of
        None \<Rightarrow> if rows = [] then None else Some rows
      | Some rs \<Rightarrow> Some (rs @ rows))"

text \<open>
  \<open>extends P f w w'\<close>: the world \<open>w'\<close> is \<open>w\<close> after some more events, each of which
  satisfies \<open>P\<close>, and the file \<open>f\<close> has grown by exactly the rows those events wrote
  to it.
\<close>

definition extends :: "(event \<Rightarrow> bool) \<Rightarrow> string \<Rightarrow> 'r world \<Rightarrow> 'r world \<Rightarrow> bool" where
  "extends P f w w' \<longleftrightarrow>
     (\<exists>evs. trace w' = trace w @ evs \<and> list_all P evs \<and>
            map_of (files w') f = content_after (map_of (files w) f) (rows_of f evs))"

text \<open>Events that do not touch the remote service, and lookups of a device.\<close>

fun quiet :: "event \<Rightarrow> bool" where
  "quiet (Called (GetTenantDevice name)) = True"
| "quiet (Called c) = False"
| "quiet ev = True"

fun is_logged :: "event \<Rightarrow> bool" where
  "is_logged (Logged lvl msg) = True"
| "is_logged ev = False"

text \<open>
  \<open>reuses ks ev\<close>: the event is no key discovery, and if it is a fetch it asks for
  the keys \<open>ks\<close>.
\<close>

fun reuses :: "string \<Rightarrow> event \<Rightarrow> bool" where
  "reuses ks (Called (GetTimeseriesKeys ent)) = False"
| "reuses ks (Called (GetTimeseries ent keys a b n)) = (keys = ks)"
| "reuses ks ev = True"

fun is_discovery :: "call \<Rightarrow> bool" where
  "is_discovery (GetTimeseriesKeys ent) = True"
| "is_discovery c = False"

section \<open>The order of the exported records\<close>

definition row_key :: "pyval list \<Rightarrow> string option" where
  "row_key row =
     (if length row = 5 then (case row ! 1 of PStr key \<Rightarrow> Some key | _ \<Rightarrow> None) else None)"

definition row_ts :: "pyval list \<Rightarrow> int option" where
  "row_ts row =
     (if length row = 5 then (case row ! 2 of PInt ts \<Rightarrow> Some ts | _ \<Rightarrow> None) else None)"

text \<open>The timestamps of all data rows, and of the data rows of one key, in file order.\<close>

definition ts_column :: "pyval list list \<Rightarrow> int list" where
  "ts_column rows = concat (map (\<lambda>row. case row_ts row of Some ts \<Rightarrow> [ts] | None \<Rightarrow> []) rows)"

definition key_ts :: "string \<Rightarrow> pyval list list \<Rightarrow> int list" where
  "key_ts k rows = ts_column (filter (\<lambda>row. row_key row = Some k) rows)"

text \<open>
  An answer to a fetch for the window from \<open>a\<close> to \<open>b\<close> is in order when it is a
  dictionary (no key twice) whose data points lie in the window and ascend in
  time under each key.
\<close>

definition in_window_ascending :: "int \<Rightarrow> int \<Rightarrow> (string \<times> data_point list) list \<Rightarrow> bool" where
  "in_window_ascending a b response \<longleftrightarrow>
     distinct (map fst response) \<and>
     list_all (\<lambda>(key, data_points).
        sorted (map fst data_points) \<and> list_all (\<lambda>(ts, v). a \<le> ts \<and> ts \<le> b) data_points)
       response"

definition ordered_answers :: "'r client \<Rightarrow> bool" where
  "ordered_answers client \<longleftrightarrow>
     (\<forall>ent keys a b n r response r'.
        get_timeseries client ent keys a b n r = (Inr response, r') \<longrightarrow>
        in_window_ascending a b response)"

text \<open>The rows written for one answer: key by key, and under each key point by point.\<close>

definition data_point_row :: "string option \<Rightarrow> string \<Rightarrow> data_point \<Rightarrow> pyval list" where
  "data_point_row device_id key data_point =
     [opt_str device_id, PStr key, PInt (fst data_point),
      fst (fst (infer_type_and_convert (snd data_point))),
      PStr (snd (fst (infer_type_and_convert (snd data_point))))]"

definition response_rows ::
  "string option \<Rightarrow> (string \<times> data_point list) list \<Rightarrow> pyval list list" where
  "response_rows device_id response =
     concat (map (\<lambda>(key, data_points). map (data_point_row device_id key) data_points) response)"

fun no_write :: "event \<Rightarrow> bool" where
  "no_write (Wrote g row) = False"
| "no_write ev = True"


section \<open>Properties of the pagination loop\<close>

lemma num_windows_done:
  assumes "0 < W" "e \<le> s"
  shows "num_windows W e s = 0"
proof -
  have "(of_int (e - s) :: real) / of_int W \<le> 0"
    using assms by (simp add: divide_nonpos_pos)
  then have "\<lceil>(of_int (e - s) :: real) / of_int W\<rceil> \<le> 0"
    by (simp add: ceiling_le_iff)
  then show ?thesis by (simp add: num_windows_def)
qed

lemma num_windows_last:
  assumes "0 < W" "s < e" "e \<le> s + W"
  shows "num_windows W e s = 1"
proof -
  have "0 < (of_int (e - s) :: real) / of_int W"
    using assms by simp
  moreover have "(of_int (e - s) :: real) / of_int W \<le> 1"
    using assms by simp
  ultimately have "\<lceil>(of_int (e - s) :: real) / of_int W\<rceil> = 1"
    by (simp add: ceiling_eq_iff)
  then show ?thesis by (simp add: num_windows_def)
qed

lemma num_windows_more:
  assumes "0 < W" "s + W < e"
  shows "num_windows W e s = Suc (num_windows W e (s + W))"
proof -
  have eq: "(of_int (e - s) :: real) / of_int W = of_int (e - (s + W)) / of_int W + 1"
    using assms by (simp add: field_simps)
  have pos: "0 < (of_int (e - (s + W)) :: real) / of_int W"
    using assms by simp
  then have "0 < \<lceil>(of_int (e - (s + W)) :: real) / of_int W\<rceil>"
    by (simp add: less_ceiling_iff)
  then show ?thesis
    unfolding num_windows_def eq by (simp add: nat_add_distrib)
qed

lemma window_list_done: "0 < W \<Longrightarrow> e \<le> s \<Longrightarrow> window_list W e s = []"
  by (simp add: window_list_def num_windows_done)

lemma window_list_step:
  assumes "0 < W" "s < e"
  shows "window_list W e s = (s, min (s + W) e) # window_list W e (min (s + W) e)"
proof (cases "e \<le> s + W")
  case True
  then have "min (s + W) e = e" by simp
  then show ?thesis
    using assms True
    by (simp add: window_list_def num_windows_last num_windows_done window_def)
next
  case False
  then have lt: "s + W < e" by simp
  then have m: "min (s + W) e = s + W" by simp
  have shift: "window W e s (Suc i) = window W e (s + W) i" for i
    by (simp add: window_def algebra_simps)
  have "window_list W e s = map (window W e s) [0 ..< Suc (num_windows W e (s + W))]"
    using assms lt by (simp add: window_list_def num_windows_more)
  also have "\<dots> = window W e s 0 # map (window W e s \<circ> Suc) [0 ..< num_windows W e (s + W)]"
    by (simp only: upt_conv_Cons zero_less_Suc list.map map_Suc_upt [symmetric] map_map)
  also have "\<dots> = (s, min (s + W) e) # window_list W e (s + W)"
  proof -
    have "window W e s 0 = (s, min (s + W) e)" by (simp add: window_def)
    then show ?thesis by (simp add: window_list_def shift comp_def)
  qed
  finally show ?thesis by (simp add: m)
qed

lemma window_loop_fold:
  assumes W: "0 < W"
  shows "window_loop body W e s st = Some (fold (\<lambda>(a, b). body a b) (window_list W e s) st)"
proof (induction "nat (e - s)" arbitrary: s st rule: less_induct)
  case less
  show ?case
  proof (cases "s < e")
    case False
    then show ?thesis
      using W by (subst window_loop.simps) (simp add: window_list_done)
  next
    case True
    let ?c = "min (s + W) e"
    have "nat (e - ?c) < nat (e - s)" using W True by auto
    from less [OF this]
    have "window_loop body W e ?c (body s ?c st) =
            Some (fold (\<lambda>(a, b). body a b) (window_list W e ?c) (body s ?c st))" .
    then show ?thesis
      using W True
      by (subst window_loop.simps) (simp add: window_list_step [OF W True] Let_def)
  qed
qed


lemma fold_snoc: "fold (\<lambda>(a, b) ws. ws @ [(a, b)]) xs acc = acc @ xs"
  by (induction xs arbitrary: acc) auto

lemma visited_windows_eq:
  "0 < time_limit_ms m \<Longrightarrow>
   visited_windows m s e = Some (window_list (time_limit_ms m) e s)"
  by (simp add: visited_windows_def window_loop_fold fold_snoc)

lemma less_num_windows_iff:
  assumes "0 < W"
  shows "i < num_windows W e s \<longleftrightarrow> s + int i * W < e"
proof -
  have "i < num_windows W e s \<longleftrightarrow> int i < \<lceil>(of_int (e - s) :: real) / of_int W\<rceil>"
    by (auto simp: num_windows_def)
  also have "\<dots> \<longleftrightarrow> (of_int (int i) :: real) < of_int (e - s) / of_int W"
    by (simp only: less_ceiling_iff)
  also have "\<dots> \<longleftrightarrow> (of_int (int i * W) :: real) < of_int (e - s)"
    using assms by (simp add: pos_less_divide_eq)
  also have "\<dots> \<longleftrightarrow> int i * W < e - s"
    by (simp only: of_int_less_iff)
  finally show ?thesis by (simp add: algebra_simps)
qed

lemma length_window_list [simp]: "length (window_list W e s) = num_windows W e s"
  by (simp add: window_list_def)

lemma nth_window_list:
  "i < num_windows W e s \<Longrightarrow> window_list W e s ! i = window W e s i"
  by (simp add: window_list_def)

lemma window_list_contiguous:
  assumes "0 < W"
  shows "contiguous (window_list W e s)"
  unfolding contiguous_def
proof (intro allI impI)
  fix i assume "Suc i < length (window_list W e s)"
  then have i: "Suc i < num_windows W e s" by simp
  then have "s + int (Suc i) * W < e" using assms by (simp only: less_num_windows_iff)
  then have "s + (int i + 1) * W < e" by (simp add: algebra_simps)
  then have "min (s + (int i + 1) * W) e = s + (int i + 1) * W" by (simp only: min_def less_imp_le if_True)
  then show "snd (window_list W e s ! i) = fst (window_list W e s ! Suc i)"
    using i by (simp add: nth_window_list window_def)
qed

lemma window_list_non_overlapping:
  assumes "0 < W"
  shows "non_overlapping (window_list W e s)"
  unfolding non_overlapping_def
proof (intro allI impI)
  fix i j assume "i < j \<and> j < length (window_list W e s)"
  then have ij: "i < j" and j: "j < num_windows W e s" by simp_all
  have "int i + 1 \<le> int j" using ij by simp
  then have "(int i + 1) * W \<le> int j * W" using assms by (simp only: mult_right_mono less_imp_le)
  then have "snd (window W e s i) \<le> fst (window W e s j)"
    by (simp add: window_def)
  then show "{fst (window_list W e s ! i) ..< snd (window_list W e s ! i)} \<inter>
             {fst (window_list W e s ! j) ..< snd (window_list W e s ! j)} = {}"
    using ij j by (auto simp: nth_window_list)
qed

lemma window_list_covered:
  assumes W: "0 < W"
  shows "covered (window_list W e s) = {s ..< e}"
proof (induction "nat (e - s)" arbitrary: s rule: less_induct)
  case less
  show ?case
  proof (cases "s < e")
    case False
    then show ?thesis using W by (simp add: window_list_done covered_def)
  next
    case True
    let ?c = "min (s + W) e"
    have "nat (e - ?c) < nat (e - s)" using W True by auto
    from less [OF this] have "covered (window_list W e ?c) = {?c ..< e}" .
    moreover have "{s ..< ?c} \<union> {?c ..< e} = {s ..< e}" using W True by auto
    ultimately show ?thesis
      by (simp add: window_list_step [OF W True] covered_def)
  qed
qed

lemma window_list_last:
  assumes W: "0 < W" and lt: "s < e"
  shows "window_list W e s \<noteq> [] \<and> snd (last (window_list W e s)) = e"
proof -
  let ?n = "num_windows W e s"
  have pos: "0 < ?n" using less_num_windows_iff [OF W, of 0 e s] lt by simp
  then have ne: "window_list W e s \<noteq> []" by (simp add: window_list_def)
  have ge: "e \<le> s + int ?n * W"
    using less_num_windows_iff [OF W, of ?n e s] by simp
  have "int (?n - 1) + 1 = int ?n" using pos by simp
  then have "snd (window W e s (?n - 1)) = e"
    using ge by (simp add: window_def)
  moreover have "last (window_list W e s) = window W e s (?n - 1)"
    using pos ne by (simp add: last_conv_nth nth_window_list)
  ultimately show ?thesis using ne by simp
qed

text \<open>
  Claim C2. For \<open>start_ts < end_ts\<close> and a positive window width
  \<open>W = time_limit * 60 * 1000\<close>, the export loop returns, and the windows it visits
  are the windows \<open>[start_ts + i * W, min (start_ts + (i + 1) * W) end_ts)\<close> in
  ascending order; each window ends where the next one starts, no two of them
  overlap, together they cover exactly \<open>[start_ts, end_ts)\<close>, and the last one ends
  at \<open>end_ts\<close>.
\<close>

theorem export_windows_partition:
  assumes "start_ts < end_ts" and "0 < time_limit_ms time_limit"
  shows "\<exists>ws. visited_windows time_limit start_ts end_ts = Some ws \<and>
           (\<forall>i < length ws.
              ws ! i = (start_ts + int i * time_limit_ms time_limit,
                        min (start_ts + (int i + 1) * time_limit_ms time_limit) end_ts)) \<and>
           contiguous ws \<and> non_overlapping ws \<and> covered ws = {start_ts ..< end_ts} \<and>
           ws \<noteq> [] \<and> snd (last ws) = end_ts"
proof -
  let ?W = "time_limit_ms time_limit"
  let ?ws = "window_list ?W end_ts start_ts"
  have "visited_windows time_limit start_ts end_ts = Some ?ws"
    using assms(2) by (rule visited_windows_eq)
  moreover have "\<forall>i < length ?ws. ?ws ! i = (start_ts + int i * ?W, min (start_ts + (int i + 1) * ?W) end_ts)"
    by (simp add: nth_window_list window_def)
  moreover have "contiguous ?ws" using assms(2) by (rule window_list_contiguous)
  moreover have "non_overlapping ?ws" using assms(2) by (rule window_list_non_overlapping)
  moreover have "covered ?ws = {start_ts ..< end_ts}" using assms(2) by (rule window_list_covered)
  moreover have "?ws \<noteq> [] \<and> snd (last ?ws) = end_ts"
    using assms(2) assms(1) by (rule window_list_last)
  ultimately show ?thesis by blast
qed


lemma window_list_advance:
  assumes W: "0 < W" and mem: "(a, b) \<in> set (window_list W e s)"
  shows "b - a = min W (e - a) \<and> 0 < b - a \<and> s \<le> a \<and> b \<le> e"
proof -
  from mem obtain i where i: "i < num_windows W e s" and ab: "(a, b) = window W e s i"
    by (auto simp: window_list_def)
  from i have lt: "s + int i * W < e" using W by (simp only: less_num_windows_iff)
  have a: "a = s + int i * W" and b: "b = min (a + W) e"
    using ab by (simp_all add: window_def algebra_simps)
  have "0 \<le> int i * W" using W by simp
  then show ?thesis using a b lt W by auto
qed

text \<open>
  Claim C10. For \<open>start_ts < end_ts\<close> and \<open>time_limit \<ge> 1\<close> the window loop returns
  whatever its body does, it runs the body exactly
  \<open>\<lceil>(end_ts - start_ts) / (time_limit * 60 * 1000)\<rceil>\<close> times, and every iteration moves
  \<open>current_start_ts\<close> forward by \<open>min W (end_ts - current_start_ts)\<close>, which is
  positive.
\<close>

theorem export_window_loop_terminates:
  assumes "start_ts < end_ts" and "1 \<le> time_limit"
  shows "window_loop body (time_limit_ms time_limit) end_ts start_ts st \<noteq> None \<and>
         window_loop (\<lambda>a b n. Suc n) (time_limit_ms time_limit) end_ts start_ts 0 =
           Some (nat \<lceil>(of_int (end_ts - start_ts) :: real) / of_int (time_limit_ms time_limit)\<rceil>) \<and>
         (\<exists>ws. visited_windows time_limit start_ts end_ts = Some ws \<and>
            (\<forall>(a, b) \<in> set ws.
               b - a = min (time_limit_ms time_limit) (end_ts - a) \<and> 0 < b - a))"
proof -
  let ?W = "time_limit_ms time_limit"
  have W: "0 < ?W" using assms(2) by (simp add: time_limit_ms_def)
  have count: "fold (\<lambda>(a, b) n. Suc n) xs k = k + length xs" for xs :: "(int \<times> int) list" and k
    by (induction xs arbitrary: k) auto
  have "window_loop body ?W end_ts start_ts st \<noteq> None"
    by (simp add: window_loop_fold [OF W])
  moreover have "window_loop (\<lambda>a b n. Suc n) ?W end_ts start_ts 0 =
      Some (nat \<lceil>(of_int (end_ts - start_ts) :: real) / of_int ?W\<rceil>)"
    by (simp add: window_loop_fold [OF W] count) (simp add: num_windows_def)
  moreover have "visited_windows time_limit start_ts end_ts = Some (window_list ?W end_ts start_ts)"
    using W by (rule visited_windows_eq)
  moreover have "\<forall>(a, b) \<in> set (window_list ?W end_ts start_ts).
      b - a = min ?W (end_ts - a) \<and> 0 < b - a"
    using window_list_advance [OF W] by blast
  ultimately show ?thesis by blast
qed

theorem export_window_loop_terminates_witness:
  "window_loop (\<lambda>a b n. Suc n) (time_limit_ms 1) 150000 1000 0 = Some 3 \<and>
   visited_windows 1 1000 150000 = Some [(1000, 61000), (61000, 121000), (121000, 150000)]"
proof -
  have "(1000::int) < 150000" and "(1::int) \<le> 1" by simp_all
  from export_window_loop_terminates [OF this, of "\<lambda>a b n. Suc n" 0]
  have "window_loop (\<lambda>a b n. Suc n) (time_limit_ms 1) 150000 1000 0 =
          Some (nat \<lceil>(of_int (150000 - 1000) :: real) / of_int (time_limit_ms 1)\<rceil>)"
    by blast
  moreover have "nat \<lceil>(of_int (150000 - 1000) :: real) / of_int (time_limit_ms 1)\<rceil> = 3"
    by (simp add: time_limit_ms_def ceiling_eq_iff)
  moreover have "visited_windows 1 1000 150000 = Some [(1000, 61000), (61000, 121000), (121000, 150000)]"
    unfolding visited_windows_def time_limit_ms_def by (simp add: window_loop.simps)
  ultimately show ?thesis by simp
qed

theorem export_windows_partition_witness:
  "\<exists>ws. visited_windows 1 1000 150000 = Some ws \<and>
           (\<forall>i < length ws.
              ws ! i = (1000 + int i * time_limit_ms 1,
                        min (1000 + (int i + 1) * time_limit_ms 1) 150000)) \<and>
           contiguous ws \<and> non_overlapping ws \<and> covered ws = {1000 ..< 150000} \<and>
           ws \<noteq> [] \<and> snd (last ws) = 150000"
  using export_windows_partition [of 1000 150000 1] by (simp add: time_limit_ms_def)


section \<open>Type inference and the conversion on import\<close>

lemma py_int_raises: "py_int t = Inl e \<Longrightarrow> e = ValueError"
  by (simp add: py_int_def Let_def split: prod.splits if_splits)

lemma float_literal_raises: "float_literal s = Inl e \<Longrightarrow> e = ValueError"
  by (simp add: float_literal_def Let_def split: prod.splits if_splits option.splits)

lemma py_float_raises: "py_float t = Inl e \<Longrightarrow> e = ValueError"
  by (auto simp: py_float_def Let_def split: if_splits dest: float_literal_raises)

lemma try_json_eq:
  "try_json t = Inr r \<Longrightarrow>
     r = (case json_loads (quotes_normalized t) of Inr j \<Rightarrow> (j, ''json'') | Inl _ \<Rightarrow> (PStr t, ''string''))"
  by (auto simp: try_json_def split: sum.splits if_splits)

lemma try_json_raises:
  "try_json t = Inl e \<Longrightarrow> \<exists>e'. json_loads (quotes_normalized t) = Inl e'"
  by (auto simp: try_json_def split: sum.splits if_splits)

text \<open>
  Claim C5. \<open>infer_type_and_convert\<close> returns a value and a tag for every text, and
  they are the ones the first-match decision order names: boolean, then int, then
  double, then json after quote normalisation, then the unchanged text as a string.
  Whatever exception escapes the body of the function is answered with the text
  itself, tagged string.
\<close>

theorem infer_first_match:
  "fst (infer_type_and_convert t) = infer_spec t \<and>
   fst (infer_type_and_convert t) =
     (case infer_body t of Inr r \<Rightarrow> r | Inl e \<Rightarrow> (PStr t, ''string''))"
proof -
  have fallback: "fst (infer_type_and_convert t) =
      (case infer_body t of Inr r \<Rightarrow> r | Inl e \<Rightarrow> (PStr t, ''string''))"
    by (simp add: infer_type_and_convert_def split: sum.splits)
  have "(case infer_body t of Inr r \<Rightarrow> r | Inl e \<Rightarrow> (PStr t, ''string'')) = infer_spec t"
  proof (cases "py_lower t = ''true'' \<or> py_lower t = ''false''")
    case True
    then show ?thesis by (auto simp: infer_body_def infer_spec_def)
  next
    case no_bool: False
    show ?thesis
    proof (cases "py_int t")
      case (Inr n)
      with no_bool show ?thesis by (simp add: infer_body_def infer_spec_def try_int_def)
    next
      case no_int: (Inl e)
      then have e: "is_ValueError e" by (simp add: py_int_raises is_ValueError_def)
      show ?thesis
      proof (cases "py_float t")
        case (Inr x)
        with no_bool no_int e show ?thesis
          by (simp add: infer_body_def infer_spec_def try_int_def try_float_def)
      next
        case no_float: (Inl e')
        then have e': "is_ValueError e'" by (simp add: py_float_raises is_ValueError_def)
        have body: "infer_body t = try_json t"
          using no_bool no_int e no_float e'
          by (simp add: infer_body_def try_int_def try_float_def)
        have spec: "infer_spec t =
            (case json_loads (quotes_normalized t) of
               Inr j \<Rightarrow> (j, ''json'') | Inl _ \<Rightarrow> (PStr t, ''string''))"
          using no_bool no_int no_float by (simp add: infer_spec_def)
        show ?thesis
        proof (cases "try_json t")
          case (Inr r)
          then show ?thesis using try_json_eq [OF Inr] by (simp add: body spec)
        next
          case (Inl x)
          from try_json_raises [OF Inl] show ?thesis by (auto simp: body spec Inl)
        qed
      qed
    qed
  qed
  with fallback show ?thesis by simp
qed

text \<open>
  Claim C1, at the value \<^verbatim>\<open>{"on": true}\<close>. Inference tags it json and keeps the parsed
  dictionary; the row written for it holds the dictionary's Python text
  \<^verbatim>\<open>{'on': True}\<close>; on import, quote normalisation turns that into \<^verbatim>\<open>{"on": True}\<close>,
  which is not JSON, so the record is dropped instead of yielding the dictionary
  back. The same happens to \<^verbatim>\<open>null\<close>, written as the empty text.
\<close>

theorem json_round_trip_fails:
  \<open>fst (infer_type_and_convert ''{"on": true}'') = (PDict [(''on'', PBool True)], ''json'') \<and>
   csv_cell (PDict [(''on'', PBool True)]) = Some ''{'on': True}'' \<and>
   quotes_normalized ''{'on': True}'' = ''{"on": True}'' \<and>
   convert_value ''{'on': True}'' ''json'' = Inl JSONDecodeError \<and>
   fst (read_rows [CsvRow ''dev1'' ''cfg'' ''1000'' ''{'on': True}'' ''json''] [] fresh) =
     Inr [(''dev1'', [])] \<and>
   fst (infer_type_and_convert ''null'') = (PNone, ''json'') \<and>
   csv_cell PNone = Some [] \<and>
   convert_value [] ''json'' = Inl JSONDecodeError\<close>
  by code_simp


section \<open>The retry policy\<close>

lemma invoke_always_fails:
  assumes "always_fails f"
  shows "\<exists>e w'. invoke c f w = (Inl e, w') \<and> trace w' = trace w @ [Called c]"
proof -
  obtain res r' where f: "f (remote w) = (res, r')" by (cases "f (remote w)")
  from assms have "isl (fst (f (remote w)))" by (simp add: always_fails_def)
  with f obtain e where "res = Inl e" by (cases res) auto
  with f show ?thesis by (simp add: invoke_def)
qed

lemma retry_exhausted:
  assumes fails: "always_fails f"
  shows "\<exists>e w'. retry 3 2 (invoke c f) w = (Inl (RetryError e), w') \<and>
           trace w' = trace w @ [Called c, Slept 2, Called c, Slept 2, Called c]"
proof -
  from invoke_always_fails [OF fails] obtain e1 w1
    where a1: "invoke c f w = (Inl e1, w1)" and t1: "trace w1 = trace w @ [Called c]"
    by blast
  from invoke_always_fails [OF fails] obtain e2 w2
    where a2: "invoke c f (sleep 2 w1) = (Inl e2, w2)"
      and t2: "trace w2 = trace (sleep 2 w1) @ [Called c]"
    by blast
  from invoke_always_fails [OF fails] obtain e3 w3
    where a3: "invoke c f (sleep 2 w2) = (Inl e3, w3)"
      and t3: "trace w3 = trace (sleep 2 w2) @ [Called c]"
    by blast
  have three: "(3::nat) - 1 = Suc (Suc 0)" by simp
  have "retry 3 2 (invoke c f) w = (Inl (RetryError e3), w3)"
    unfolding retry_def three by (simp add: a1 a2 a3)
  moreover have "trace w3 = trace w @ [Called c, Slept 2, Called c, Slept 2, Called c]"
    by (simp add: t1 t2 t3 sleep_def)
  ultimately show ?thesis by blast
qed

text \<open>
  Claim C6. When the remote operation behind a wrapped call fails on every
  attempt, \<open>fetch_timeseries\<close> (one call per export window) and \<open>save_telemetry\<close>
  (one call per imported time-point) each invoke it exactly three times, sleep
  two seconds between consecutive attempts and nowhere else, and then raise
  \<open>RetryError\<close> to their caller.
\<close>

theorem retry_gives_up_after_three_attempts:
  "(always_fails (get_timeseries client ent keys start_ts end_ts chunk_limit) \<longrightarrow>
      (\<exists>e w'. fetch_timeseries client ent keys start_ts end_ts chunk_limit w =
                 (Inl (RetryError e), w') \<and>
               trace w' = trace w @
                 [Called (GetTimeseries ent keys start_ts end_ts chunk_limit), Slept 2,
                  Called (GetTimeseries ent keys start_ts end_ts chunk_limit), Slept 2,
                  Called (GetTimeseries ent keys start_ts end_ts chunk_limit)])) \<and>
   (always_fails (save_entity_telemetry client ent ''ANY'' body) \<longrightarrow>
      (\<exists>e w'. save_telemetry client ent body w = (Inl (RetryError e), w') \<and>
               trace w' = trace w @
                 [Called (SaveEntityTelemetry ent ''ANY'' body), Slept 2,
                  Called (SaveEntityTelemetry ent ''ANY'' body), Slept 2,
                  Called (SaveEntityTelemetry ent ''ANY'' body)]))"
  unfolding fetch_timeseries_def save_telemetry_def
  by (intro conjI impI retry_exhausted)

theorem retry_gives_up_after_three_attempts_witness:
  "always_fails (get_timeseries down_client (EntityId ''DEVICE'' (Some ''id-d1'')) ''temp'' 0 1000 1024) \<and>
   always_fails (save_entity_telemetry down_client (EntityId ''DEVICE'' (Some ''id-d1'')) ''ANY''
      (1000, ''temp'', PInt 21)) \<and>
   (\<exists>e w'. fetch_timeseries down_client (EntityId ''DEVICE'' (Some ''id-d1'')) ''temp'' 0 1000 1024 fresh =
               (Inl (RetryError e), w') \<and>
            trace w' =
              [Called (GetTimeseries (EntityId ''DEVICE'' (Some ''id-d1'')) ''temp'' 0 1000 1024), Slept 2,
               Called (GetTimeseries (EntityId ''DEVICE'' (Some ''id-d1'')) ''temp'' 0 1000 1024), Slept 2,
               Called (GetTimeseries (EntityId ''DEVICE'' (Some ''id-d1'')) ''temp'' 0 1000 1024)]) \<and>
   (\<exists>e w'. save_telemetry down_client (EntityId ''DEVICE'' (Some ''id-d1'')) (1000, ''temp'', PInt 21) fresh =
               (Inl (RetryError e), w') \<and>
            trace w' =
              [Called (SaveEntityTelemetry (EntityId ''DEVICE'' (Some ''id-d1'')) ''ANY'' (1000, ''temp'', PInt 21)), Slept 2,
               Called (SaveEntityTelemetry (EntityId ''DEVICE'' (Some ''id-d1'')) ''ANY'' (1000, ''temp'', PInt 21)), Slept 2,
               Called (SaveEntityTelemetry (EntityId ''DEVICE'' (Some ''id-d1'')) ''ANY'' (1000, ''temp'', PInt 21))])"
proof -
  let ?ent = "EntityId ''DEVICE'' (Some ''id-d1'')"
  have f: "always_fails (get_timeseries down_client ?ent ''temp'' 0 1000 1024)"
    by (simp add: always_fails_def down_client_def lenient_client_def)
  have s: "always_fails (save_entity_telemetry down_client ?ent ''ANY'' (1000, ''temp'', PInt 21))"
    by (simp add: always_fails_def down_client_def lenient_client_def)
  have t: "trace fresh = []" by (simp add: fresh_def)
  from retry_gives_up_after_three_attempts
         [of down_client ?ent "''temp''" 0 1000 1024 fresh "(1000, ''temp'', PInt 21)"] f s t
  show ?thesis by simp
qed


section \<open>Failures that are not contained\<close>

lemma retry_three: "retry 3 wait f = attempt_loop (Suc (Suc 0)) wait f"
  by (simp add: retry_def numeral_3_eq_3)

lemmas export_run =
  export_timeseries_def time_limit_ms_def export_device_def get_device_id_def select_keys_def
  get_all_keys_def export_window_def fetch_timeseries_def retry_three invoke_def emit_def sleep_def
  open_write_def writerow_def header_def export_response_def export_data_point_def opt_str_def
  is_ApiException_def window_loop_code fresh_def

lemma infer_samples:
  "infer_type_and_convert ''21.5'' = ((PFloat (Dec False 215 (- 1)), ''double''), [])"
  "infer_type_and_convert ''22'' = ((PInt 22, ''int''), [])"
  "infer_type_and_convert ''true'' = ((PBool True, ''boolean''), [])"
  by code_simp+

text \<open>
  Claim C3, at the device names \<^verbatim>\<open>ghost,d1\<close> with no explicit key list, over the
  range \<open>[0, 120000)\<close> in windows of one minute. Resolving \<open>ghost\<close> fails and
  \<open>get_device_id\<close> answers \<open>None\<close>, but \<open>export_timeseries\<close> goes on with that
  device: with a client library that accepts a null id it discovers keys for the
  null entity and makes three fetch attempts for it in each of the two windows
  before it turns to \<open>d1\<close>; with a library that rejects a null id the key discovery
  raises \<open>ValueError\<close>, which ends the run before \<open>d1\<close> is looked at.
\<close>

theorem unresolved_device_is_not_skipped:
  "map_option (\<lambda>(r, w). (r, calls (trace w)))
     (export_timeseries lenient_client ''out.csv'' 0 120000 ''ghost,d1'' None 1024 1 fresh) =
   Some (Inr (),
     [GetTenantDevice ''ghost'',
      GetTimeseriesKeys (EntityId ''DEVICE'' None),
      GetTimeseries (EntityId ''DEVICE'' None) ''temp,on'' 0 60000 1024,
      GetTimeseries (EntityId ''DEVICE'' None) ''temp,on'' 0 60000 1024,
      GetTimeseries (EntityId ''DEVICE'' None) ''temp,on'' 0 60000 1024,
      GetTimeseries (EntityId ''DEVICE'' None) ''temp,on'' 60000 120000 1024,
      GetTimeseries (EntityId ''DEVICE'' None) ''temp,on'' 60000 120000 1024,
      GetTimeseries (EntityId ''DEVICE'' None) ''temp,on'' 60000 120000 1024,
      GetTenantDevice ''d1'',
      GetTimeseries (EntityId ''DEVICE'' (Some ''id-d1'')) ''temp,on'' 0 60000 1024,
      GetTimeseries (EntityId ''DEVICE'' (Some ''id-d1'')) ''temp,on'' 60000 120000 1024]) \<and>
   map_option (\<lambda>(r, w). (r, calls (trace w)))
     (export_timeseries strict_client ''out.csv'' 0 120000 ''ghost,d1'' None 1024 1 fresh) =
   Some (Inl ValueError, [GetTenantDevice ''ghost''])"
  by (simp add: export_run lenient_client_def strict_client_def infer_samples
        cong: sum.case_cong_weak prod.case_cong_weak option.case_cong_weak if_weak_cong)

text \<open>
  Claim C4, at three input rows of which the second holds the value \<^verbatim>\<open>abc\<close> under
  the tag int, and at three rows of which the second has the timestamp \<^verbatim>\<open>12x\<close>.
  In both runs \<open>import_timeseries\<close> ends with \<open>ValueError\<close> while it still reads
  the rows: nothing is logged, and no row at all is written to the service, the
  well-formed first and third included. Without the second row both others are
  written.
\<close>

theorem import_decode_failure_propagates:
  "map_prod id trace (import_timeseries lenient_client
     [CsvRow ''dev1'' ''temp'' ''1000'' ''23.5'' ''double'',
      CsvRow ''dev1'' ''count'' ''2000'' ''abc'' ''int'',
      CsvRow ''dev2'' ''temp'' ''1000'' ''7'' ''int''] 100 fresh) =
     (Inl ValueError, []) \<and>
   map_prod id trace (import_timeseries lenient_client
     [CsvRow ''dev1'' ''temp'' ''1000'' ''23.5'' ''double'',
      CsvRow ''dev1'' ''count'' ''12x'' ''5'' ''int'',
      CsvRow ''dev2'' ''temp'' ''1000'' ''7'' ''int''] 100 fresh) =
     (Inl ValueError, []) \<and>
   map_prod id (calls \<circ> trace) (import_timeseries lenient_client
     [CsvRow ''dev1'' ''temp'' ''1000'' ''23.5'' ''double'',
      CsvRow ''dev2'' ''temp'' ''1000'' ''7'' ''int''] 100 fresh) =
     (Inr (),
      [SaveEntityTelemetry (EntityId ''DEVICE'' (Some ''dev1'')) ''ANY'' (1000, ''temp'', PFloat (Dec False 235 (- 1))),
       SaveEntityTelemetry (EntityId ''DEVICE'' (Some ''dev2'')) ''ANY'' (1000, ''temp'', PInt 7)])"
  by code_simp


section \<open>Reasoning about runs\<close>

text \<open>Partial correctness of the window loop: an invariant of the body holds when the loop returns.\<close>

lemma window_loop_rule:
  assumes run: "window_loop body W e c s = Some s'"
    and init: "I c s"
    and step: "\<And>a st. I a st \<Longrightarrow> a < e \<Longrightarrow> I (min (a + W) e) (body a (min (a + W) e) st)"
  shows "\<exists>c'. \<not> c' < e \<and> I c' s'"
  using run init step
proof (induction body W e c s s' rule: window_loop.raw_induct)
  case (1 loop body W e c s s')
  note IH = "1"(1) and unfolded = "1"(2) and run = "1"(3) and init = "1"(4) and step = "1"(5)
  show ?case
  proof (cases "c < e")
    case False
    with unfolded have "s' = s" by simp
    with False init show ?thesis by blast
  next
    case True
    let ?c = "min (c + W) e"
    from True unfolded have a: "loop body W e ?c (body c ?c s) = Some s'"
      by (simp add: Let_def)
    from True run have b: "window_loop body W e ?c (body c ?c s) = Some s'"
      by (subst (asm) window_loop.simps) (simp add: Let_def)
    have c: "I ?c (body c ?c s)" using init True by (rule step)
    show ?thesis by (rule IH [OF a b c]) (rule step)
  qed
qed (fact run)

lemma window_loop_diverges:
  assumes "W \<le> 0" and "c < e"
  shows "window_loop body W e c s = None"
proof (rule ccontr)
  assume "window_loop body W e c s \<noteq> None"
  then obtain s' where run: "window_loop body W e c s = Some s'" by blast
  have "\<exists>c'. \<not> c' < e \<and> c' < e"
    by (rule window_loop_rule [OF run, where I = "\<lambda>a st. a < e"]) (use assms in auto)
  then show False by blast
qed

lemma rows_of_append: "rows_of f (xs @ ys) = rows_of f xs @ rows_of f ys"
  by (induction f xs rule: rows_of.induct) auto

lemma content_after_Nil: "content_after old [] = old"
  by (simp add: content_after_def split: option.splits)

lemma content_after_append:
  "content_after (content_after old xs) ys = content_after old (xs @ ys)"
  by (auto simp: content_after_def split: option.splits)

lemma map_of_file_put_same: "map_of (file_put n rows fs) n = Some rows"
  by (induction n rows fs rule: file_put.induct) auto

lemma map_of_file_put_other: "m \<noteq> n \<Longrightarrow> map_of (file_put n rows fs) m = map_of fs m"
  by (induction n rows fs rule: file_put.induct) auto

lemma extends_refl: "extends P f w w"
  by (auto simp: extends_def content_after_Nil intro: exI [of _ "[]"])

lemma extends_trans:
  assumes "extends P f w w1" and "extends P f w1 w2"
  shows "extends P f w w2"
proof -
  from assms(1) obtain xs where xs: "trace w1 = trace w @ xs" "list_all P xs"
    "map_of (files w1) f = content_after (map_of (files w) f) (rows_of f xs)"
    unfolding extends_def by blast
  from assms(2) obtain ys where ys: "trace w2 = trace w1 @ ys" "list_all P ys"
    "map_of (files w2) f = content_after (map_of (files w1) f) (rows_of f ys)"
    unfolding extends_def by blast
  have "trace w2 = trace w @ (xs @ ys)" using xs(1) ys(1) by simp
  moreover have "list_all P (xs @ ys)" using xs(2) ys(2) by simp
  moreover have "map_of (files w2) f = content_after (map_of (files w) f) (rows_of f (xs @ ys))"
    using xs(3) ys(3) by (simp add: rows_of_append content_after_append)
  ultimately show ?thesis unfolding extends_def by blast
qed

lemma extends_event:
  assumes "P ev" and "rows_of f [ev] = []" and "trace w' = trace w @ [ev]" and "files w' = files w"
  shows "extends P f w w'"
  unfolding extends_def
  using assms by (intro exI [of _ "[ev]"]) (simp add: content_after_Nil)

lemma extends_emit: "P (Logged lvl msg) \<Longrightarrow> extends P f w (emit lvl msg w)"
  by (rule extends_event [of _ "Logged lvl msg"]) (simp_all add: emit_def)

lemma extends_sleep: "P (Slept n) \<Longrightarrow> extends P f w (sleep n w)"
  by (rule extends_event [of _ "Slept n"]) (simp_all add: sleep_def)

lemma extends_invoke:
  assumes "P (Called c)" and "invoke c g w = (res, w')"
  shows "extends P f w w'"
proof (rule extends_event [of _ "Called c"])
  show "P (Called c)" by fact
  show "rows_of f [Called c] = []" by simp
  show "trace w' = trace w @ [Called c]" "files w' = files w"
    using assms(2) by (auto simp: invoke_def split: prod.splits)
qed

lemma extends_open_write:
  "trace (open_write f w) = trace w @ [Opened f] \<and> map_of (files (open_write f w)) f = Some []"
  by (simp add: open_write_def map_of_file_put_same)

lemma extends_writerow:
  assumes "P (Wrote g row)"
  shows "extends P f w (writerow g row w)"
  unfolding extends_def
proof (intro exI [of _ "[Wrote g row]"] conjI)
  show "trace (writerow g row w) = trace w @ [Wrote g row]" by (simp add: writerow_def)
  show "list_all P [Wrote g row]" using assms by simp
  show "map_of (files (writerow g row w)) f =
          content_after (map_of (files w) f) (rows_of f [Wrote g row])"
    by (cases "g = f")
       (auto simp: writerow_def map_of_file_put_same map_of_file_put_other content_after_def
             split: option.splits)
qed

lemma attempt_loop_extends:
  assumes c: "P (Called c)" and s: "P (Slept wait)"
  shows "attempt_loop n wait (invoke c g) w = (res, w') \<Longrightarrow> extends P f w w'"
proof (induction n arbitrary: w)
  case 0
  obtain r1 w1 where i: "invoke c g w = (r1, w1)" by (cases "invoke c g w")
  from extends_invoke [where P = P, OF c i] have "extends P f w w1" .
  moreover from 0 i have "w' = w1" by (cases r1) auto
  ultimately show ?case by simp
next
  case (Suc n)
  obtain r1 w1 where i: "invoke c g w = (r1, w1)" by (cases "invoke c g w")
  from extends_invoke [where P = P, OF c i] have e1: "extends P f w w1" .
  show ?case
  proof (cases r1)
    case (Inr v)
    with Suc.prems i have "w' = w1" by simp
    with e1 show ?thesis by simp
  next
    case (Inl e)
    with Suc.prems i have "attempt_loop n wait (invoke c g) (sleep wait w1) = (res, w')" by simp
    from Suc.IH [OF this] have "extends P f (sleep wait w1) w'" .
    moreover have "extends P f w1 (sleep wait w1)" using s by (rule extends_sleep)
    ultimately show ?thesis using e1 by (blast intro: extends_trans)
  qed
qed

lemma attempt_loop_answer:
  "attempt_loop n wait (invoke c g) w = (Inr v, w') \<Longrightarrow> \<exists>r r'. g r = (Inr v, r')"
proof (induction n arbitrary: w)
  case 0
  then show ?case by (auto simp: invoke_def split: prod.splits sum.splits)
next
  case (Suc n)
  obtain r1 w1 where i: "invoke c g w = (r1, w1)" by (cases "invoke c g w")
  show ?case
  proof (cases r1)
    case (Inr u)
    with Suc.prems i have "u = v" by simp
    with Inr i show ?thesis by (auto simp: invoke_def split: prod.splits)
  next
    case (Inl e)
    with Suc.prems i have "attempt_loop n wait (invoke c g) (sleep wait w1) = (Inr v, w')" by simp
    then show ?thesis by (rule Suc.IH)
  qed
qed

lemma fold_emit_extends:
  assumes "\<And>lvl msg. P (Logged lvl msg)"
  shows "extends P f w (fold (\<lambda>(lvl, msg). emit lvl msg) warnings w)"
proof (induction warnings arbitrary: w)
  case Nil
  show ?case by (simp add: extends_refl)
next
  case (Cons a warnings)
  obtain lvl msg where a: "a = (lvl, msg)" by (cases a)
  have "extends P f w (emit lvl msg w)" by (rule extends_emit) (rule assms)
  with Cons [of "emit lvl msg w"] show ?case by (auto simp: a intro: extends_trans)
qed

lemma export_data_point_extends:
  assumes q: "\<And>ev. quiet ev \<Longrightarrow> P ev"
  shows "extends P f w (export_data_point file_name device_id key data_point w)"
proof -
  obtain ts raw where dp: "data_point = (ts, raw)" by (cases data_point)
  obtain v ty warnings where i: "infer_type_and_convert raw = ((v, ty), warnings)"
    by (cases "infer_type_and_convert raw") auto
  have "extends P f w (fold (\<lambda>(lvl, msg). emit lvl msg) warnings w)"
    by (rule fold_emit_extends) (simp add: q)
  moreover have "extends P f (fold (\<lambda>(lvl, msg). emit lvl msg) warnings w)
      (writerow file_name [opt_str device_id, PStr key, PInt ts, v, PStr ty]
         (fold (\<lambda>(lvl, msg). emit lvl msg) warnings w))"
    by (rule extends_writerow) (simp add: q)
  ultimately show ?thesis
    by (simp add: export_data_point_def dp i) (rule extends_trans)
qed

lemma fold_data_points_extends:
  assumes q: "\<And>ev. quiet ev \<Longrightarrow> P ev"
  shows "extends P f w (fold (export_data_point file_name device_id key) data_points w)"
proof (induction data_points arbitrary: w)
  case Nil
  show ?case by (simp add: extends_refl)
next
  case (Cons a data_points)
  from export_data_point_extends [of P f w file_name device_id key a, OF q]
    Cons [of "export_data_point file_name device_id key a w"]
  show ?case by (auto intro: extends_trans)
qed

lemma export_response_extends:
  assumes q: "\<And>ev. quiet ev \<Longrightarrow> P ev"
  shows "extends P f w (snd (export_response file_name device_id response w))"
proof -
  have "extends P f w
      (snd (fold (\<lambda>(key, data_points) (total_fetched, w').
                   (total_fetched + length data_points,
                    fold (export_data_point file_name device_id key) data_points w'))
              response (t, w)))" for t
  proof (induction response arbitrary: t w)
    case Nil
    show ?case by (simp add: extends_refl)
  next
    case (Cons a response)
    obtain key dps where a: "a = (key, dps)" by (cases a)
    from fold_data_points_extends [of P f w file_name device_id key dps, OF q]
      Cons [of "fold (export_data_point file_name device_id key) dps w" "t + length dps"]
    show ?case by (auto simp: a intro: extends_trans)
  qed
  then show ?thesis by (simp add: export_response_def)
qed

lemma fetch_timeseries_extends:
  assumes q: "\<And>ev. quiet ev \<Longrightarrow> P ev"
    and c: "P (Called (GetTimeseries ent keys a b n))"
    and run: "fetch_timeseries client ent keys a b n w = (res, w')"
  shows "extends P f w w'"
proof (rule attempt_loop_extends [where P = P])
  show "P (Called (GetTimeseries ent keys a b n))" by (rule c)
  show "P (Slept 2)" by (rule q) simp
  show "attempt_loop (3 - 1) 2 (invoke (GetTimeseries ent keys a b n)
          (get_timeseries client ent keys a b n)) w = (res, w')"
    using run by (simp only: fetch_timeseries_def retry_def)
qed

lemma export_window_extends:
  assumes q: "\<And>ev. quiet ev \<Longrightarrow> P ev"
    and c: "\<And>ent a b n. P (Called (GetTimeseries ent keys a b n))"
  shows "extends P f w (export_window client file_name device_name device_id keys n a b w)"
proof (cases "new_entity_id client ''DEVICE'' device_id")
  case (Inl e)
  then show ?thesis by (simp add: export_window_def extends_emit q)
next
  case (Inr ent)
  obtain res w1 where fetch: "fetch_timeseries client ent keys a b n w = (res, w1)"
    by (cases "fetch_timeseries client ent keys a b n w")
  have e1: "extends P f w w1"
    by (rule fetch_timeseries_extends [where P = P, OF q c fetch])
  show ?thesis
  proof (cases res)
    case (Inl e)
    have "extends P f w1 (emit ERROR (''Failed to fetch timeseries data for device '' @ device_name) w1)"
      by (simp add: extends_emit q)
    with e1 show ?thesis
      by (simp add: export_window_def Inr fetch Inl) (rule extends_trans)
  next
    case resp: (Inr response)
    obtain total w2 where r: "export_response file_name device_id response w1 = (total, w2)"
      by (cases "export_response file_name device_id response w1")
    from export_response_extends [of P f w1 file_name device_id response, OF q] r
    have e2: "extends P f w1 w2" by simp
    have e3: "extends P f w2 (emit INFO (''Fetched records for device with name '' @ device_name) w2)"
      by (simp add: extends_emit q)
    from e1 e2 e3 show ?thesis
      by (auto simp: export_window_def Inr fetch resp r intro: extends_trans)
  qed
qed

lemma window_loop_extends:
  assumes q: "\<And>ev. quiet ev \<Longrightarrow> P ev"
    and c: "\<And>ent a b n. P (Called (GetTimeseries ent keys a b n))"
    and run: "window_loop (export_window client file_name device_name device_id keys n)
                W e s w = Some w'"
  shows "extends P f w w'"
proof -
  have "\<exists>c'. \<not> c' < e \<and> extends P f w w'"
  proof (rule window_loop_rule [OF run, where I = "\<lambda>a st. extends P f w st"])
    show "extends P f w w" by (rule extends_refl)
  next
    fix a st assume "extends P f w st"
    moreover have "extends P f st
        (export_window client file_name device_name device_id keys n a (min (a + W) e) st)"
      by (rule export_window_extends [where P = P, OF q c])
    ultimately show "extends P f w
        (export_window client file_name device_name device_id keys n a (min (a + W) e) st)"
      by (rule extends_trans)
  qed
  then show ?thesis by blast
qed


section \<open>Devices, key lists and the output file\<close>

lemma quiet_reuses: "quiet ev \<Longrightarrow> reuses ks ev"
  by (cases "(ks, ev)" rule: reuses.cases) auto

lemma get_device_id_trace:
  assumes "get_device_id client device_name w = (res, w')"
  shows "\<exists>logs. trace w' = trace w @ Called (GetTenantDevice device_name) # logs \<and>
           list_all is_logged logs \<and> files w' = files w"
proof -
  obtain r1 w1 where i: "invoke (GetTenantDevice device_name) (get_tenant_device client device_name) w = (r1, w1)"
    by (cases "invoke (GetTenantDevice device_name) (get_tenant_device client device_name) w")
  then have t: "trace w1 = trace w @ [Called (GetTenantDevice device_name)]" "files w1 = files w"
    by (auto simp: invoke_def split: prod.splits)
  show ?thesis
  proof (cases r1)
    case (Inr device)
    with assms i have "w' = w1" by (simp add: get_device_id_def)
    with t show ?thesis by simp
  next
    case (Inl e)
    show ?thesis
    proof (cases "is_ApiException e")
      case True
      with assms i Inl
      have "w' = emit ERROR (''Error fetching device ID for '' @ device_name) w1"
        by (simp add: get_device_id_def)
      with t show ?thesis by (simp add: emit_def)
    next
      case False
      with assms i Inl have "w' = w1" by (simp add: get_device_id_def)
      with t show ?thesis by simp
    qed
  qed
qed

lemma logged_quiet: "list_all is_logged logs \<Longrightarrow> list_all quiet logs"
proof (induction logs)
  case Nil
  show ?case by simp
next
  case (Cons a logs)
  then show ?case by (cases a) auto
qed

lemma rows_of_logged: "list_all is_logged logs \<Longrightarrow> rows_of f logs = []"
proof (induction logs)
  case Nil
  show ?case by simp
next
  case (Cons a logs)
  then show ?case by (cases a) auto
qed

lemma get_device_id_extends:
  assumes q: "\<And>ev. quiet ev \<Longrightarrow> P ev"
    and run: "get_device_id client device_name w = (res, w')"
  shows "extends P f w w'"
proof -
  from get_device_id_trace [OF run] obtain logs
    where t: "trace w' = trace w @ Called (GetTenantDevice device_name) # logs"
      and l: "list_all is_logged logs" and fs: "files w' = files w"
    by blast
  have "list_all P logs" using logged_quiet [OF l] q by (simp add: list_all_iff)
  then have "list_all P (Called (GetTenantDevice device_name) # logs)" by (simp add: q)
  moreover have "rows_of f (Called (GetTenantDevice device_name) # logs) = []"
    by (simp add: rows_of_logged [OF l])
  ultimately show ?thesis
    unfolding extends_def using t fs
    by (intro exI [of _ "Called (GetTenantDevice device_name) # logs"]) (simp add: content_after_Nil)
qed

lemma get_all_keys_trace:
  assumes "get_all_keys client etype eid w = (Inr ks, w')"
  shows "\<exists>ent answer r r'.
           trace w' = trace w @ [Called (GetTimeseriesKeys ent)] \<and> files w' = files w \<and>
           new_entity_id client etype eid = Inr ent \<and>
           get_timeseries_keys_v1 client ent r = (Inr answer, r') \<and> ks = py_join '','' answer"
proof (cases "new_entity_id client etype eid")
  case (Inl e)
  with assms show ?thesis by (simp add: get_all_keys_def)
next
  case (Inr ent)
  obtain r1 w1 where i: "invoke (GetTimeseriesKeys ent) (get_timeseries_keys_v1 client ent) w = (r1, w1)"
    by (cases "invoke (GetTimeseriesKeys ent) (get_timeseries_keys_v1 client ent) w")
  with assms Inr obtain answer where a: "r1 = Inr answer" "ks = py_join '','' answer" "w' = w1"
    by (cases r1) (auto simp: get_all_keys_def)
  from i a have "trace w' = trace w @ [Called (GetTimeseriesKeys ent)]" "files w' = files w"
    "\<exists>r'. get_timeseries_keys_v1 client ent (remote w) = (Inr answer, r')"
    by (auto simp: invoke_def split: prod.splits)
  with Inr a show ?thesis by blast
qed

lemma get_all_keys_extends:
  assumes all: "\<And>ev. P ev" and run: "get_all_keys client etype eid w = (res, w')"
  shows "extends P f w w'"
proof (cases "new_entity_id client etype eid")
  case (Inl e)
  with run have "w' = w" by (simp add: get_all_keys_def)
  then show ?thesis by (simp add: extends_refl)
next
  case (Inr ent)
  obtain r1 w1 where i: "invoke (GetTimeseriesKeys ent) (get_timeseries_keys_v1 client ent) w = (r1, w1)"
    by (cases "invoke (GetTimeseriesKeys ent) (get_timeseries_keys_v1 client ent) w")
  with run Inr have "w' = w1" by (cases r1) (auto simp: get_all_keys_def)
  moreover have "extends P f w w1" by (rule extends_invoke [where P = P, OF all i])
  ultimately show ?thesis by simp
qed

lemma select_keys_extends:
  assumes all: "\<And>ev. P ev" and run: "select_keys client device_id keys w = (res, w')"
  shows "extends P f w w'"
proof (cases "\<exists>ks. keys = Some ks \<and> ks \<noteq> []")
  case True
  with run have "w' = w" by (auto simp: select_keys_def)
  then show ?thesis by (simp add: extends_refl)
next
  case False
  with run have "get_all_keys client ''DEVICE'' device_id w = (res, w')"
    by (cases keys) (auto simp: select_keys_def)
  then show ?thesis by (rule get_all_keys_extends [where P = P, OF all])
qed

text \<open>One device, whatever the key list: every event is accounted for.\<close>

lemma export_device_extends:
  assumes all: "\<And>ev. P ev"
    and run: "export_device client file_name start_ts end_ts n W device_name keys w = Some (res, w')"
  shows "extends P f w w'"
proof -
  obtain r1 w1 where g: "get_device_id client device_name w = (r1, w1)"
    by (cases "get_device_id client device_name w")
  have e1: "extends P f w w1" by (rule get_device_id_extends [where P = P, OF all g])
  show ?thesis
  proof (cases r1)
    case (Inl e)
    with run g have "w' = w1" by (simp add: export_device_def)
    with e1 show ?thesis by simp
  next
    case (Inr device_id)
    let ?w1 = "emit INFO (''Processing telemetry export for device: '' @ device_name) w1"
    have e2: "extends P f w1 ?w1" by (rule extends_emit) (rule all)
    obtain r2 w2 where s: "select_keys client device_id keys ?w1 = (r2, w2)"
      by (cases "select_keys client device_id keys ?w1")
    have e3: "extends P f ?w1 w2" by (rule select_keys_extends [where P = P, OF all s])
    show ?thesis
    proof (cases r2)
      case (Inl e)
      with run g Inr s have "w' = w2" by (simp add: export_device_def)
      with e1 e2 e3 show ?thesis by (blast intro: extends_trans)
    next
      case ks: (Inr ks)
      from run g Inr s ks obtain w3
        where loop: "window_loop (export_window client file_name device_name device_id ks n)
                       W end_ts start_ts w2 = Some w3"
          and w': "w' = emit INFO (''Finished processing timeseries for device with name '' @ device_name) w3"
        by (auto simp: export_device_def split: option.splits)
      have e4: "extends P f w2 w3"
        by (rule window_loop_extends [where P = P, OF all all loop])
      have e5: "extends P f w3 w'" unfolding w' by (rule extends_emit) (rule all)
      from e1 e2 e3 e4 e5 show ?thesis by (blast intro: extends_trans)
    qed
  qed
qed

lemma export_devices_extends:
  assumes all: "\<And>ev. P ev"
  shows "export_devices client file_name start_ts end_ts n W names keys w = Some (res, w') \<Longrightarrow>
         extends P f w w'"
proof (induction names arbitrary: keys w)
  case Nil
  then show ?case by (simp add: extends_refl)
next
  case (Cons device_name rest)
  from Cons.prems obtain r1 w1
    where d: "export_device client file_name start_ts end_ts n W device_name keys w = Some (r1, w1)"
    by (auto split: option.splits)
  have e1: "extends P f w w1" by (rule export_device_extends [where P = P, OF all d])
  show ?case
  proof (cases r1)
    case (Inl e)
    with Cons.prems d have "w' = w1" by simp
    with e1 show ?thesis by simp
  next
    case (Inr ks)
    with Cons.prems d
    have "export_devices client file_name start_ts end_ts n W rest (Some ks) w1 = Some (res, w')"
      by simp
    from Cons.IH [OF this] e1 show ?thesis by (blast intro: extends_trans)
  qed
qed

text \<open>
  Claim C9. An export run that returns has opened its output file for writing
  and written the header row before anything else it did, the resolution of the
  first device and every call to the service included; the file then holds the
  header followed by the rows the run wrote, whatever it held before; and when no
  record was written it holds the header row alone.
\<close>

theorem export_writes_header_first:
  assumes "export_timeseries client file_name start_ts end_ts device_names keys chunk_limit
             time_limit w = Some (res, w')"
  shows "\<exists>evs. trace w' = trace w @ Opened file_name # Wrote file_name header # evs \<and>
           map_of (files w') file_name = Some (header # rows_of file_name evs) \<and>
           (rows_of file_name evs = [] \<longrightarrow> map_of (files w') file_name = Some [header])"
proof -
  let ?w2 = "writerow file_name header (open_write file_name w)"
  have t2: "trace ?w2 = trace w @ [Opened file_name, Wrote file_name header]"
    by (simp add: writerow_def open_write_def)
  have f2: "map_of (files ?w2) file_name = Some [header]"
    by (simp add: writerow_def open_write_def map_of_file_put_same)
  from assms have "extends (\<lambda>ev. True) file_name ?w2 w'"
    unfolding export_timeseries_def by (rule export_devices_extends [rotated]) simp
  then obtain evs where "trace w' = trace ?w2 @ evs"
    and "map_of (files w') file_name = content_after (map_of (files ?w2) file_name) (rows_of file_name evs)"
    unfolding extends_def by blast
  with t2 f2 have "trace w' = trace w @ Opened file_name # Wrote file_name header # evs"
    and "map_of (files w') file_name = Some (header # rows_of file_name evs)"
    by (simp_all add: content_after_def)
  then show ?thesis by auto
qed

theorem export_writes_header_first_witness:
  "\<exists>res w' evs.
     export_timeseries lenient_client ''out.csv'' 0 60000 ''ghost'' (Some ''temp'') 1024 1 stale =
       Some (res, w') \<and>
     trace w' = Opened ''out.csv'' # Wrote ''out.csv'' header # evs \<and>
     rows_of ''out.csv'' evs = [] \<and>
     map_of (files w') ''out.csv'' = Some [header]"
proof -
  have "map_option (\<lambda>(r, w). map_of (files w) ''out.csv'')
          (export_timeseries lenient_client ''out.csv'' 0 60000 ''ghost'' (Some ''temp'') 1024 1 stale) =
        Some (Some [header])"
    by (simp add: export_run lenient_client_def stale_def
          cong: sum.case_cong_weak prod.case_cong_weak option.case_cong_weak if_weak_cong)
  then obtain res w'
    where run: "export_timeseries lenient_client ''out.csv'' 0 60000 ''ghost'' (Some ''temp'') 1024 1 stale =
                  Some (res, w')"
      and content: "map_of (files w') ''out.csv'' = Some [header]"
    by auto
  from export_writes_header_first [OF run] obtain evs
    where "trace w' = trace stale @ Opened ''out.csv'' # Wrote ''out.csv'' header # evs"
      and "map_of (files w') ''out.csv'' = Some (header # rows_of ''out.csv'' evs)"
    by blast
  with content have "trace w' = Opened ''out.csv'' # Wrote ''out.csv'' header # evs"
    and "rows_of ''out.csv'' evs = []"
    by (simp_all add: stale_def)
  with run content show ?thesis by blast
qed


section \<open>Reuse of the discovered key list\<close>

lemma export_window_reuses:
  "extends (reuses ks) f w (export_window client file_name device_name device_id ks n a b w)"
  by (rule export_window_extends [where P = "reuses ks"]) (simp_all add: quiet_reuses)

lemma window_loop_reuses:
  assumes "window_loop (export_window client file_name device_name device_id ks n) W e s w = Some w'"
  shows "extends (reuses ks) f w w'"
  by (rule window_loop_extends [where P = "reuses ks", OF _ _ assms]) (simp_all add: quiet_reuses)

lemma extends_list_all:
  "extends P f w w' \<Longrightarrow> \<exists>evs. trace w' = trace w @ evs \<and> list_all P evs"
  unfolding extends_def by blast

text \<open>A device processed with a non-empty key list in hand: no discovery, and the list is passed on.\<close>

lemma export_device_given:
  assumes ne: "ks \<noteq> []"
    and run: "export_device client file_name start_ts end_ts n W device_name (Some ks) w = Some (res, w')"
  shows "extends (reuses ks) f w w' \<and> (\<forall>k. res = Inr k \<longrightarrow> k = ks)"
proof -
  obtain r1 w1 where g: "get_device_id client device_name w = (r1, w1)"
    by (cases "get_device_id client device_name w")
  have e1: "extends (reuses ks) f w w1"
    by (rule get_device_id_extends [where P = "reuses ks", OF _ g]) (rule quiet_reuses)
  show ?thesis
  proof (cases r1)
    case (Inl e)
    with run g have "w' = w1" "res = Inl e" by (simp_all add: export_device_def)
    with e1 show ?thesis by simp
  next
    case (Inr device_id)
    let ?w1 = "emit INFO (''Processing telemetry export for device: '' @ device_name) w1"
    have e2: "extends (reuses ks) f w1 ?w1" by (rule extends_emit) simp
    have s: "select_keys client device_id (Some ks) ?w1 = (Inr ks, ?w1)"
      using ne by (simp add: select_keys_def)
    from run g Inr s obtain w3
      where loop: "window_loop (export_window client file_name device_name device_id ks n)
                     W end_ts start_ts ?w1 = Some w3"
        and w': "w' = emit INFO (''Finished processing timeseries for device with name '' @ device_name) w3"
        and res: "res = Inr ks"
      by (auto simp: export_device_def split: option.splits)
    have e4: "extends (reuses ks) f ?w1 w3" by (rule window_loop_reuses [OF loop])
    have e5: "extends (reuses ks) f w3 w'" unfolding w' by (rule extends_emit) simp
    from e1 e2 e4 e5 res show ?thesis by (blast intro: extends_trans)
  qed
qed

lemma export_devices_given:
  assumes ne: "ks \<noteq> []"
  shows "export_devices client file_name start_ts end_ts n W names (Some ks) w = Some (res, w') \<Longrightarrow>
         extends (reuses ks) f w w'"
proof (induction names arbitrary: w)
  case Nil
  then show ?case by (simp add: extends_refl)
next
  case (Cons device_name rest)
  from Cons.prems obtain r1 w1
    where d: "export_device client file_name start_ts end_ts n W device_name (Some ks) w = Some (r1, w1)"
    by (auto split: option.splits)
  from export_device_given [OF ne d]
  have e1: "extends (reuses ks) f w w1" and k: "\<forall>k. r1 = Inr k \<longrightarrow> k = ks" by blast+
  show ?case
  proof (cases r1)
    case (Inl e)
    with Cons.prems d have "w' = w1" by simp
    with e1 show ?thesis by simp
  next
    case (Inr k)
    with k have "k = ks" by simp
    with Inr Cons.prems d
    have "export_devices client file_name start_ts end_ts n W rest (Some ks) w1 = Some (res, w')"
      by simp
    from Cons.IH [OF this] e1 show ?thesis by (blast intro: extends_trans)
  qed
qed

text \<open>The first device of a run that starts without a key list.\<close>

lemma export_device_first:
  assumes run: "export_device client file_name start_ts end_ts n W device_name None w = Some (Inr ks, w')"
  shows "\<exists>logs ent evs answer r r'.
           trace w' = trace w @ Called (GetTenantDevice device_name) # logs @
                        Called (GetTimeseriesKeys ent) # evs \<and>
           list_all is_logged logs \<and> list_all (reuses ks) evs \<and>
           get_timeseries_keys_v1 client ent r = (Inr answer, r') \<and> ks = py_join '','' answer"
proof -
  obtain r1 w1 where g: "get_device_id client device_name w = (r1, w1)"
    by (cases "get_device_id client device_name w")
  from get_device_id_trace [OF g] obtain logs
    where t1: "trace w1 = trace w @ Called (GetTenantDevice device_name) # logs"
      and l1: "list_all is_logged logs"
    by blast
  from run g obtain device_id where r1: "r1 = Inr device_id"
    by (cases r1) (auto simp: export_device_def)
  let ?w1 = "emit INFO (''Processing telemetry export for device: '' @ device_name) w1"
  have t2: "trace ?w1 = trace w1 @ [Logged INFO (''Processing telemetry export for device: '' @ device_name)]"
    by (simp add: emit_def)
  obtain r2 w2 where s: "select_keys client device_id None ?w1 = (r2, w2)"
    by (cases "select_keys client device_id None ?w1")
  from run g r1 s obtain w3
    where r2: "r2 = Inr ks"
      and loop: "window_loop (export_window client file_name device_name device_id ks n)
                   W end_ts start_ts w2 = Some w3"
      and w': "w' = emit INFO (''Finished processing timeseries for device with name '' @ device_name) w3"
    by (cases r2) (auto simp: export_device_def split: option.splits)
  from s r2 have "get_all_keys client ''DEVICE'' device_id ?w1 = (Inr ks, w2)"
    by (simp add: select_keys_def)
  from get_all_keys_trace [OF this] obtain ent answer r r'
    where t3: "trace w2 = trace ?w1 @ [Called (GetTimeseriesKeys ent)]"
      and a: "get_timeseries_keys_v1 client ent r = (Inr answer, r')" "ks = py_join '','' answer"
    by blast
  have "extends (reuses ks) file_name w2 w3" by (rule window_loop_reuses [OF loop])
  moreover have "extends (reuses ks) file_name w3 w'" unfolding w' by (rule extends_emit) simp
  ultimately have "extends (reuses ks) file_name w2 w'" by (rule extends_trans)
  from extends_list_all [OF this] obtain evs
    where t4: "trace w' = trace w2 @ evs" and l4: "list_all (reuses ks) evs"
    by blast
  let ?logs = "logs @ [Logged INFO (''Processing telemetry export for device: '' @ device_name)]"
  have "trace w' = trace w @ Called (GetTenantDevice device_name) # ?logs @
                     Called (GetTimeseriesKeys ent) # evs"
    using t1 t2 t3 t4 by simp
  moreover have "list_all is_logged ?logs" using l1 by simp
  ultimately show ?thesis using l4 a by blast
qed

lemma calls_append: "calls (xs @ ys) = calls xs @ calls ys"
  by (induction xs rule: calls.induct) auto

lemma calls_logged: "list_all is_logged logs \<Longrightarrow> calls logs = []"
proof (induction logs)
  case Nil
  show ?case by simp
next
  case (Cons a logs)
  then show ?case by (cases a) auto
qed

lemma reuses_no_discovery: "list_all (reuses ks) evs \<Longrightarrow> filter is_discovery (calls evs) = []"
proof (induction evs rule: calls.induct)
  case 1
  show ?case by simp
next
  case (2 c evs)
  then show ?case by (cases c) auto
qed auto

text \<open>
  Claim C8, amended. In an export run started with no explicit key list whose
  first device is processed to its end with a non-empty discovered key list
  \<open>ks\<close>, the run opens the file, writes the header, resolves the first device,
  logs, and then asks the service for the keys of that device; this is the only
  key discovery of the run, \<open>ks\<close> is the comma-joined answer to it, and every
  fetch of the run, for the first device and for all later ones, asks for \<open>ks\<close>.
\<close>

theorem key_list_discovered_once:
  assumes names: "py_split (CHR '','') device_names = d # rest"
    and first: "export_device client file_name start_ts end_ts chunk_limit (time_limit_ms time_limit)
                  d None (writerow file_name header (open_write file_name w)) = Some (Inr ks, w1)"
    and ne: "ks \<noteq> []"
    and run: "export_timeseries client file_name start_ts end_ts device_names None chunk_limit
                time_limit w = Some (res, w')"
  shows "\<exists>logs ent evs answer r r'.
           trace w' = trace w @ [Opened file_name, Wrote file_name header, Called (GetTenantDevice d)] @
                        logs @ Called (GetTimeseriesKeys ent) # evs \<and>
           list_all is_logged logs \<and> list_all (reuses ks) evs \<and>
           filter is_discovery (calls (logs @ Called (GetTimeseriesKeys ent) # evs)) =
             [GetTimeseriesKeys ent] \<and>
           get_timeseries_keys_v1 client ent r = (Inr answer, r') \<and> ks = py_join '','' answer"
proof -
  let ?w2 = "writerow file_name header (open_write file_name w)"
  have t2: "trace ?w2 = trace w @ [Opened file_name, Wrote file_name header]"
    by (simp add: writerow_def open_write_def)
  from export_device_first [OF first] obtain logs ent evs1 answer r r'
    where t1: "trace w1 = trace ?w2 @ Called (GetTenantDevice d) # logs @
                 Called (GetTimeseriesKeys ent) # evs1"
      and l: "list_all is_logged logs" and e1: "list_all (reuses ks) evs1"
      and a: "get_timeseries_keys_v1 client ent r = (Inr answer, r')" "ks = py_join '','' answer"
    by blast
  from run names first
  have "export_devices client file_name start_ts end_ts chunk_limit (time_limit_ms time_limit)
          rest (Some ks) w1 = Some (res, w')"
    by (simp add: export_timeseries_def)
  from export_devices_given [OF ne this, of file_name]
  obtain evs2 where t3: "trace w' = trace w1 @ evs2" and e2: "list_all (reuses ks) evs2"
    unfolding extends_def by blast
  let ?evs = "evs1 @ evs2"
  have "trace w' = trace w @ [Opened file_name, Wrote file_name header, Called (GetTenantDevice d)] @
                     logs @ Called (GetTimeseriesKeys ent) # ?evs"
    using t1 t2 t3 by simp
  moreover have r: "list_all (reuses ks) ?evs" using e1 e2 by simp
  moreover have "filter is_discovery (calls (logs @ Called (GetTimeseriesKeys ent) # ?evs)) =
      [GetTimeseriesKeys ent]"
    using reuses_no_discovery [OF r] calls_logged [OF l] by (simp add: calls_append)
  ultimately show ?thesis using l a by blast
qed

theorem key_list_discovered_once_witness:
  "\<exists>w1 res w' logs ent evs answer r r'.
     py_split (CHR '','') ''d1,d2'' = ''d1'' # [''d2''] \<and>
     export_device lenient_client ''out.csv'' 0 60000 1024 (time_limit_ms 1) ''d1'' None
       (writerow ''out.csv'' header (open_write ''out.csv'' fresh)) = Some (Inr ''temp,on'', w1) \<and>
     export_timeseries lenient_client ''out.csv'' 0 60000 ''d1,d2'' None 1024 1 fresh = Some (res, w') \<and>
     trace w' = [Opened ''out.csv'', Wrote ''out.csv'' header, Called (GetTenantDevice ''d1'')] @
                  logs @ Called (GetTimeseriesKeys ent) # evs \<and>
     list_all is_logged logs \<and> list_all (reuses ''temp,on'') evs \<and>
     filter is_discovery (calls (logs @ Called (GetTimeseriesKeys ent) # evs)) =
       [GetTimeseriesKeys ent] \<and>
     get_timeseries_keys_v1 lenient_client ent r = (Inr answer, r') \<and>
     ''temp,on'' = py_join '','' answer"
proof -
  have names: "py_split (CHR '','') ''d1,d2'' = ''d1'' # [''d2'']" by simp
  have "\<exists>w1. export_device lenient_client ''out.csv'' 0 60000 1024 (time_limit_ms 1) ''d1'' None
       (writerow ''out.csv'' header (open_write ''out.csv'' fresh)) = Some (Inr ''temp,on'', w1)"
    by (simp add: export_run lenient_client_def infer_samples
          cong: sum.case_cong_weak prod.case_cong_weak option.case_cong_weak if_weak_cong)
  then obtain w1 where first:
    "export_device lenient_client ''out.csv'' 0 60000 1024 (time_limit_ms 1) ''d1'' None
       (writerow ''out.csv'' header (open_write ''out.csv'' fresh)) = Some (Inr ''temp,on'', w1)"
    by blast
  have "\<exists>x. export_timeseries lenient_client ''out.csv'' 0 60000 ''d1,d2'' None 1024 1 fresh = Some x"
    by (simp add: export_run lenient_client_def infer_samples
          cong: sum.case_cong_weak prod.case_cong_weak option.case_cong_weak if_weak_cong)
  then obtain res w' where run:
    "export_timeseries lenient_client ''out.csv'' 0 60000 ''d1,d2'' None 1024 1 fresh = Some (res, w')"
    by auto
  have ne: "''temp,on'' \<noteq> []" by simp
  from key_list_discovered_once [OF names first ne run] obtain logs ent evs answer r r'
    where t: "trace w' = trace fresh @ [Opened ''out.csv'', Wrote ''out.csv'' header,
                Called (GetTenantDevice ''d1'')] @ logs @ Called (GetTimeseriesKeys ent) # evs"
      and l: "list_all is_logged logs" and e: "list_all (reuses ''temp,on'') evs"
      and c: "filter is_discovery (calls (logs @ Called (GetTimeseriesKeys ent) # evs)) =
                [GetTimeseriesKeys ent]"
      and a: "get_timeseries_keys_v1 lenient_client ent r = (Inr answer, r')"
             "''temp,on'' = py_join '','' answer"
    by blast
  from t have t': "trace w' = [Opened ''out.csv'', Wrote ''out.csv'' header,
      Called (GetTenantDevice ''d1'')] @ logs @ Called (GetTimeseriesKeys ent) # evs"
    by (simp add: fresh_def)
  from names first run t' l e c a show ?thesis by blast
qed

text \<open>
  The claim as it was stated fails when the first device has no telemetry keys:
  the discovered list is the empty text, which the test \<^verbatim>\<open>if not keys\<close> takes for
  a missing list, so discovery is invoked again for the second device.
\<close>

theorem key_discovery_repeated_counterexample:
  "map_option (\<lambda>(r, w). filter is_discovery (calls (trace w)))
     (export_timeseries keyless_client ''out.csv'' 0 60000 ''d1,d2'' None 1024 1 fresh) =
   Some [GetTimeseriesKeys (EntityId ''DEVICE'' (Some ''id-d1'')),
         GetTimeseriesKeys (EntityId ''DEVICE'' (Some ''id-d2''))]"
  by (simp add: export_run keyless_client_def lenient_client_def infer_samples
        cong: sum.case_cong_weak prod.case_cong_weak option.case_cong_weak if_weak_cong)


section \<open>The order of the exported records\<close>

lemma rows_of_no_write: "list_all no_write evs \<Longrightarrow> rows_of f evs = []"
proof (induction evs)
  case Nil
  show ?case by simp
next
  case (Cons a evs)
  then show ?case by (cases a) auto
qed

lemma extends_no_write:
  "extends no_write f w w' \<Longrightarrow> \<exists>evs. trace w' = trace w @ evs \<and> rows_of f evs = []"
  unfolding extends_def by (blast intro: rows_of_no_write)

lemma fetch_timeseries_rows:
  assumes "fetch_timeseries client ent keys a b n w = (res, w')"
  shows "\<exists>evs. trace w' = trace w @ evs \<and> rows_of f evs = []"
proof (rule extends_no_write, rule attempt_loop_extends [where P = no_write])
  show "attempt_loop (3 - 1) 2 (invoke (GetTimeseries ent keys a b n)
          (get_timeseries client ent keys a b n)) w = (res, w')"
    using assms by (simp only: fetch_timeseries_def retry_def)
qed simp_all

lemma fetch_timeseries_answer:
  assumes "fetch_timeseries client ent keys a b n w = (Inr response, w')"
  shows "\<exists>r r'. get_timeseries client ent keys a b n r = (Inr response, r')"
  using assms unfolding fetch_timeseries_def retry_def by (rule attempt_loop_answer)

lemma export_data_point_rows:
  "\<exists>evs. trace (export_data_point f device_id key data_point w) = trace w @ evs \<and>
         rows_of f evs = [data_point_row device_id key data_point]"
proof -
  obtain ts raw where dp: "data_point = (ts, raw)" by (cases data_point)
  obtain v ty warnings where i: "infer_type_and_convert raw = ((v, ty), warnings)"
    by (cases "infer_type_and_convert raw") auto
  let ?w1 = "fold (\<lambda>(lvl, msg). emit lvl msg) warnings w"
  have "extends no_write f w ?w1" by (rule fold_emit_extends) simp
  from extends_no_write [OF this] obtain evs
    where "trace ?w1 = trace w @ evs" "rows_of f evs = []"
    by blast
  then have "trace (export_data_point f device_id key data_point w) =
               trace w @ (evs @ [Wrote f (data_point_row device_id key data_point)])"
    and "rows_of f (evs @ [Wrote f (data_point_row device_id key data_point)]) =
           [data_point_row device_id key data_point]"
    by (simp_all add: export_data_point_def dp i writerow_def data_point_row_def rows_of_append)
  then show ?thesis by blast
qed

lemma fold_data_points_rows:
  "\<exists>evs. trace (fold (export_data_point f device_id key) data_points w) = trace w @ evs \<and>
         rows_of f evs = map (data_point_row device_id key) data_points"
proof (induction data_points arbitrary: w)
  case Nil
  show ?case by simp
next
  case (Cons a data_points)
  from export_data_point_rows [of f device_id key a w] obtain xs
    where xs: "trace (export_data_point f device_id key a w) = trace w @ xs"
      "rows_of f xs = [data_point_row device_id key a]"
    by blast
  from Cons [of "export_data_point f device_id key a w"] obtain ys
    where ys: "trace (fold (export_data_point f device_id key) data_points
                  (export_data_point f device_id key a w)) =
               trace (export_data_point f device_id key a w) @ ys"
      "rows_of f ys = map (data_point_row device_id key) data_points"
    by blast
  from xs ys have "trace (fold (export_data_point f device_id key) (a # data_points) w) =
      trace w @ (xs @ ys)"
    and "rows_of f (xs @ ys) = map (data_point_row device_id key) (a # data_points)"
    by (simp_all add: rows_of_append)
  then show ?case by blast
qed

lemma export_response_rows:
  "\<exists>evs. trace (snd (export_response f device_id response w)) = trace w @ evs \<and>
         rows_of f evs = response_rows device_id response"
proof -
  let ?step = "\<lambda>(key, data_points) (total_fetched :: nat, w').
                 (total_fetched + length data_points,
                  fold (export_data_point f device_id key) data_points w')"
  have "\<exists>evs. trace (snd (fold ?step response (t, w))) = trace w @ evs \<and>
              rows_of f evs = response_rows device_id response" for t
  proof (induction response arbitrary: t w)
    case Nil
    show ?case by (simp add: response_rows_def)
  next
    case (Cons a response)
    obtain key dps where a: "a = (key, dps)" by (cases a)
    let ?w1 = "fold (export_data_point f device_id key) dps w"
    from fold_data_points_rows [of f device_id key dps w] obtain xs
      where xs: "trace ?w1 = trace w @ xs" "rows_of f xs = map (data_point_row device_id key) dps"
      by blast
    from Cons [of "t + length dps" ?w1] obtain ys
      where ys: "trace (snd (fold ?step response (t + length dps, ?w1))) = trace ?w1 @ ys"
        "rows_of f ys = response_rows device_id response"
      by blast
    from xs ys have "trace (snd (fold ?step (a # response) (t, w))) = trace w @ (xs @ ys)"
      and "rows_of f (xs @ ys) = response_rows device_id (a # response)"
      by (simp_all add: a rows_of_append response_rows_def)
    then show ?case by blast
  qed
  then show ?thesis by (simp add: export_response_def)
qed

lemma export_window_rows:
  "\<exists>evs. trace (export_window client f device_name device_id keys n a b w) = trace w @ evs \<and>
         (rows_of f evs = [] \<or>
          (\<exists>ent response r r'.
             get_timeseries client ent keys a b n r = (Inr response, r') \<and>
             rows_of f evs = response_rows device_id response))"
proof (cases "new_entity_id client ''DEVICE'' device_id")
  case (Inl e)
  then have "trace (export_window client f device_name device_id keys n a b w) =
      trace w @ [Logged ERROR (''Failed to fetch timeseries data for device '' @ device_name)]"
    by (simp add: export_window_def emit_def)
  moreover have "rows_of f [Logged ERROR (''Failed to fetch timeseries data for device '' @ device_name)] = []"
    by simp
  ultimately show ?thesis by blast
next
  case (Inr ent)
  obtain res w1 where fetch: "fetch_timeseries client ent keys a b n w = (res, w1)"
    by (cases "fetch_timeseries client ent keys a b n w")
  from fetch_timeseries_rows [OF fetch, of f] obtain xs
    where xs: "trace w1 = trace w @ xs" "rows_of f xs = []"
    by blast
  show ?thesis
  proof (cases res)
    case (Inl e)
    let ?l = "Logged ERROR (''Failed to fetch timeseries data for device '' @ device_name)"
    have "trace (export_window client f device_name device_id keys n a b w) = trace w @ (xs @ [?l])"
      by (simp add: export_window_def Inr fetch Inl emit_def xs)
    moreover have "rows_of f (xs @ [?l]) = []" by (simp add: rows_of_append xs)
    ultimately show ?thesis by blast
  next
    case resp: (Inr response)
    from fetch resp fetch_timeseries_answer obtain r r'
      where ans: "get_timeseries client ent keys a b n r = (Inr response, r')"
      by blast
    obtain total w2 where er: "export_response f device_id response w1 = (total, w2)"
      by (cases "export_response f device_id response w1")
    from export_response_rows [of f device_id response w1] er obtain ys
      where ys: "trace w2 = trace w1 @ ys" "rows_of f ys = response_rows device_id response"
      by auto
    let ?l = "Logged INFO (''Fetched records for device with name '' @ device_name)"
    let ?zs = "if total > 0 then [?l] else []"
    have "trace (export_window client f device_name device_id keys n a b w) =
            trace w @ (xs @ ys @ ?zs)"
      by (simp add: export_window_def Inr fetch resp er emit_def xs ys)
    moreover have "rows_of f (xs @ ys @ ?zs) = response_rows device_id response"
      by (simp add: rows_of_append xs ys)
    ultimately show ?thesis using ans by blast
  qed
qed


end
